theory Spec2Isabelle
  imports Main "HOL-Library.Word" "HOL-Library.Signed_Division"
begin

unbundle bit_operations_syntax

section \<open>Machine types and run-time failures\<close>

type_synonym byte = "8 word"
type_synonym uint16 = "16 word"
type_synonym uint32 = "32 word"
type_synonym uint64 = "64 word"

text \<open>
  Go's run-time panics, and the faults of the unchecked \<open>memcopy\<close> of util.go.
\<close>

datatype error =
    IndexOutOfRange
  | NilDereference
  | DivideByZero
  | MemFault
  | Panic string

section \<open>MVCC items and the snapshot filter (mvcc.go)\<close>

text \<open>
  Modelled from the spec: the \<open>item\<close> struct behind \<open>(*item)(o.Item())\<close> is declared in a
  file that is not part of the sources at hand; mvcc.go reads it through \<open>Sn()\<close> and
  \<open>IsInsert()\<close> only. Section 3 of the specification gives the record
  \<open>{key, value?, sn: u64, isDelete}\<close>; \<open>isInsert\<close> is the negation of \<open>isDelete\<close>.
\<close>

record item =
  key :: "byte list"
  val :: "byte list option"
  itmSn :: uint64
  isInsert :: bool

record rollbackSn =
  rb_start :: uint64
  rb_end :: uint64

text \<open>
  \<open>rollbackFilter.Process\<close>: an item whose sequence number lies in one of the intervals
  is answered with \<open>nilPageItemsList\<close> (here the empty list), any other item with itself.
  A \<open>nil\<close> slice and an empty one behave alike: the loop body never runs.
\<close>

fun inRollback :: "rollbackSn list \<Rightarrow> uint64 \<Rightarrow> bool" where
  "inRollback [] s = False"
| "inRollback (r # rs) s = (if rb_start r \<le> s \<and> s \<le> rb_end r then True else inRollback rs s)"

definition rollbackFilter_Process :: "rollbackSn list \<Rightarrow> item \<Rightarrow> item list" where
  "rollbackFilter_Process fs o_itm = (if inRollback fs (itmSn o_itm) then [] else [o_itm])"

record snFilter =
  sn :: uint64
  skip :: bool
  filters :: "rollbackSn list"

text \<open>\<open>snFilter.Process\<close>: the emitted list and the filter after the call.\<close>

definition snFilter_Process :: "snFilter \<Rightarrow> item \<Rightarrow> item list \<times> snFilter" where
  "snFilter_Process f o_itm =
     (if rollbackFilter_Process (filters f) o_itm = [] then ([], f)
      else if skip f \<or> sn f < itmSn o_itm then ([], f\<lparr>skip := False\<rparr>)
      else if \<not> isInsert o_itm then ([], f\<lparr>skip := True\<rparr>)
      else ([o_itm], f))"

text \<open>The iterator hands the items of a page to the filter one after the other.\<close>

fun snFilter_run :: "snFilter \<Rightarrow> item list \<Rightarrow> item list" where
  "snFilter_run f [] = []"
| "snFilter_run f (x # xs) =
     (case snFilter_Process f x of (out, f') \<Rightarrow> out @ snFilter_run f' xs)"

text \<open>Inserts and deletes alternate: no two neighbours carry the same flag.\<close>

fun alternating :: "item list \<Rightarrow> bool" where
  "alternating (x # y # zs) = (isInsert x \<noteq> isInsert y \<and> alternating (y # zs))"
| "alternating _ = True"

text \<open>Newest first: sequence numbers never increase along the list.\<close>

fun newestFirst :: "item list \<Rightarrow> bool" where
  "newestFirst (x # y # zs) = (itmSn y \<le> itmSn x \<and> newestFirst (y # zs))"
| "newestFirst _ = True"

definition live :: "snFilter \<Rightarrow> item list \<Rightarrow> item list" where
  "live f xs = filter (\<lambda>x. \<not> inRollback (filters f) (itmSn x)) xs"

definition mkItem :: "nat \<Rightarrow> nat \<Rightarrow> bool \<Rightarrow> item" where
  "mkItem k s ins = \<lparr>key = [of_nat k], val = None, itmSn = of_nat s, isInsert = ins\<rparr>"

section \<open>Byte buffers (encoding/binary, slices, copy)\<close>

text \<open>
  Results of fallible code are \<open>error + 'a\<close>; \<open>bindE\<close> sequences two steps and stops at
  the first failure, as a panic does.
\<close>

definition bindE :: "error + 'a \<Rightarrow> ('a \<Rightarrow> error + 'b) \<Rightarrow> error + 'b" where
  "bindE m f = (case m of Inl e \<Rightarrow> Inl e | Inr x \<Rightarrow> f x)"

text \<open>Big-endian byte orders of \<open>binary.BigEndian\<close>: most significant byte first.\<close>

definition be16 :: "uint16 \<Rightarrow> byte list" where
  "be16 v = [ucast (drop_bit 8 v), ucast v]"

definition be32 :: "uint32 \<Rightarrow> byte list" where
  "be32 v = [ucast (drop_bit 24 v), ucast (drop_bit 16 v), ucast (drop_bit 8 v), ucast v]"

definition be64 :: "uint64 \<Rightarrow> byte list" where
  "be64 v = [ucast (drop_bit 56 v), ucast (drop_bit 48 v), ucast (drop_bit 40 v),
             ucast (drop_bit 32 v), ucast (drop_bit 24 v), ucast (drop_bit 16 v),
             ucast (drop_bit 8 v), ucast v]"

text \<open>
  A slice expression \<open>bs[a:b]\<close>. Go allows \<open>b\<close> up to the capacity; the buffers here are
  taken to have no spare capacity, so the bound is the length.
\<close>

definition slice :: "byte list \<Rightarrow> nat \<Rightarrow> nat \<Rightarrow> error + byte list" where
  "slice bs a b = (if a \<le> b \<and> b \<le> length bs then Inr (take (b - a) (drop a bs))
                   else Inl IndexOutOfRange)"

text \<open>\<open>binary.BigEndian.Uint16(b)\<close> and its siblings panic on a slice that is too short.\<close>

definition Uint16 :: "byte list \<Rightarrow> error + uint16" where
  "Uint16 b = (if length b < 2 then Inl IndexOutOfRange
               else Inr (push_bit 8 (ucast (b ! 0)) OR ucast (b ! 1)))"

definition Uint32 :: "byte list \<Rightarrow> error + uint32" where
  "Uint32 b = (if length b < 4 then Inl IndexOutOfRange
               else Inr (push_bit 24 (ucast (b ! 0)) OR push_bit 16 (ucast (b ! 1)) OR
                         push_bit 8 (ucast (b ! 2)) OR ucast (b ! 3)))"

definition Uint64 :: "byte list \<Rightarrow> error + uint64" where
  "Uint64 b = (if length b < 8 then Inl IndexOutOfRange
               else Inr (push_bit 56 (ucast (b ! 0)) OR push_bit 48 (ucast (b ! 1)) OR
                         push_bit 40 (ucast (b ! 2)) OR push_bit 32 (ucast (b ! 3)) OR
                         push_bit 24 (ucast (b ! 4)) OR push_bit 16 (ucast (b ! 5)) OR
                         push_bit 8 (ucast (b ! 6)) OR ucast (b ! 7)))"

text \<open>
  Writing through a sub-slice changes the buffer it aliases: \<open>store bs off xs\<close> is \<open>bs\<close>
  after \<open>xs\<close> was written at offset \<open>off\<close>, and fails where the sub-slice
  \<open>bs[off : off + len xs]\<close> does not exist.
\<close>

definition store :: "byte list \<Rightarrow> nat \<Rightarrow> byte list \<Rightarrow> error + byte list" where
  "store bs off xs = (if off + length xs \<le> length bs
                      then Inr (take off bs @ xs @ drop (off + length xs) bs)
                      else Inl IndexOutOfRange)"

text \<open>\<open>binary.BigEndian.PutUint16(bs[off:off+2], v)\<close> and its siblings.\<close>

definition PutUint16 :: "byte list \<Rightarrow> nat \<Rightarrow> uint16 \<Rightarrow> error + byte list" where
  "PutUint16 bs off v = store bs off (be16 v)"

definition PutUint32 :: "byte list \<Rightarrow> nat \<Rightarrow> uint32 \<Rightarrow> error + byte list" where
  "PutUint32 bs off v = store bs off (be32 v)"

definition PutUint64 :: "byte list \<Rightarrow> nat \<Rightarrow> uint64 \<Rightarrow> error + byte list" where
  "PutUint64 bs off v = store bs off (be64 v)"

text \<open>
  \<open>copy(bs[off:], src)\<close>: the slice must exist (\<open>off \<le> len bs\<close>); the built-in copies as
  many bytes as fit.
\<close>

definition copy_at :: "byte list \<Rightarrow> nat \<Rightarrow> byte list \<Rightarrow> error + byte list" where
  "copy_at bs off src =
     (if off \<le> length bs then store bs off (take (length bs - off) src)
      else Inl IndexOutOfRange)"

section \<open>Recovery points and their block format (mvcc.go)\<close>

record RecoveryPoint =
  rp_sn :: uint64
  rp_count :: "64 word"
  rp_meta :: "byte list"

text \<open>
  The loop of \<open>marshalRPs\<close> over the recovery points, writing at \<open>offset\<close>. Lengths are Go
  \<open>int\<close>s (natural numbers here); \<open>uint32(...)\<close> truncates.
\<close>

fun marshalRPs_loop :: "byte list \<Rightarrow> nat \<Rightarrow> RecoveryPoint list \<Rightarrow> error + byte list" where
  "marshalRPs_loop bs offset [] = Inr bs"
| "marshalRPs_loop bs offset (rp # rps) =
     bindE (PutUint32 bs offset (of_nat (4 + 8 + 8 + length (rp_meta rp)))) (\<lambda>bs.
     bindE (PutUint64 bs (offset + 4) (rp_sn rp)) (\<lambda>bs.
     bindE (PutUint64 bs (offset + 4 + 8) (rp_count rp)) (\<lambda>bs.
     bindE (copy_at bs (offset + 4 + 8 + 8) (rp_meta rp)) (\<lambda>bs.
     marshalRPs_loop bs (offset + 4 + 8 + 8 + length (rp_meta rp)) rps))))"

definition marshalRPs :: "RecoveryPoint list \<Rightarrow> uint16 \<Rightarrow> error + byte list" where
  "marshalRPs rps version =
     (let l = sum_list (map (\<lambda>rp. 4 + 8 + 8 + length (rp_meta rp)) rps);
          bs = replicate (2 + 2 + l) 0
      in bindE (PutUint16 bs 0 version) (\<lambda>bs.
         bindE (PutUint16 bs 2 (of_nat (length rps))) (\<lambda>bs.
         marshalRPs_loop bs 4 rps)))"

text \<open>The loop of \<open>unmarshalRPs\<close>: \<open>n\<close> entries are still to be read at \<open>offset\<close>.\<close>

fun unmarshalRPs_loop :: "byte list \<Rightarrow> nat \<Rightarrow> nat \<Rightarrow> error + RecoveryPoint list" where
  "unmarshalRPs_loop bs offset 0 = Inr []"
| "unmarshalRPs_loop bs offset (Suc n) =
     bindE (bindE (slice bs offset (offset + 4)) Uint32) (\<lambda>l.
     let endOffset = offset + unat l in
     bindE (bindE (slice bs (offset + 4) (offset + 4 + 8)) Uint64) (\<lambda>s.
     bindE (bindE (slice bs (offset + 4 + 8) (offset + 4 + 8 + 8)) Uint64) (\<lambda>c.
     bindE (slice bs (offset + 4 + 8 + 8) endOffset) (\<lambda>m.
     bindE (unmarshalRPs_loop bs endOffset n) (\<lambda>rps.
     Inr (\<lparr>rp_sn = s, rp_count = c, rp_meta = m\<rparr> # rps))))))"

definition unmarshalRPs :: "byte list \<Rightarrow> error + (uint16 \<times> RecoveryPoint list)" where
  "unmarshalRPs bs =
     bindE (bindE (slice bs 0 2) Uint16) (\<lambda>version.
     bindE (bindE (slice bs 2 4) Uint16) (\<lambda>n.
     bindE (unmarshalRPs_loop bs 4 (unat n)) (\<lambda>rps.
     Inr (version, rps))))"

text \<open>The block layout of the specification, written from its words.\<close>

definition rp_record :: "RecoveryPoint \<Rightarrow> byte list" where
  "rp_record rp = be32 (of_nat (20 + length (rp_meta rp))) @ be64 (rp_sn rp) @
                  be64 (rp_count rp) @ rp_meta rp"

definition rp_block :: "RecoveryPoint list \<Rightarrow> uint16 \<Rightarrow> byte list" where
  "rp_block rps version = be16 version @ be16 (of_nat (length rps)) @ concat (map rp_record rps)"

definition rp0 :: RecoveryPoint where
  "rp0 = \<lparr>rp_sn = 7, rp_count = 3, rp_meta = [1, 2]\<rparr>"

section \<open>The log-structured store\<close>

text \<open>The block type tags of the persistor: \<open>iota + 1\<close>, in the order of declaration.\<close>

datatype lssBlockType =
    lssPageData
  | lssPageReloc
  | lssPageUpdate
  | lssPageRemove
  | lssRecoveryPoints
  | lssMaxSn
  | lssDiscard

fun lssBlockType_code :: "lssBlockType \<Rightarrow> uint16" where
  "lssBlockType_code lssPageData = 1"
| "lssBlockType_code lssPageReloc = 2"
| "lssBlockType_code lssPageUpdate = 3"
| "lssBlockType_code lssPageRemove = 4"
| "lssBlockType_code lssRecoveryPoints = 5"
| "lssBlockType_code lssMaxSn = 6"
| "lssBlockType_code lssDiscard = 7"

definition lssBlockTypeSize :: nat where
  "lssBlockTypeSize = 2"

text \<open>
  \<open>discardLSSBlock\<close>, \<open>writeLSSBlock\<close> and \<open>getLSSBlockType\<close>, on the contents of the
  reserved buffer \<open>wbuf\<close>.
\<close>

definition discardLSSBlock :: "byte list \<Rightarrow> error + byte list" where
  "discardLSSBlock wbuf = PutUint16 wbuf 0 (lssBlockType_code lssDiscard)"

definition writeLSSBlock :: "byte list \<Rightarrow> lssBlockType \<Rightarrow> byte list \<Rightarrow> error + byte list" where
  "writeLSSBlock wbuf typ bs =
     bindE (copy_at wbuf lssBlockTypeSize bs) (\<lambda>wbuf.
     PutUint16 wbuf 0 (lssBlockType_code typ))"

definition getLSSBlockType :: "byte list \<Rightarrow> error + uint16" where
  "getLSSBlockType bs = Uint16 bs"

text \<open>
  Modelled from the spec: the log itself (\<open>ReserveSpace\<close>, \<open>FinalizeWrite\<close>, \<open>Sync\<close>) is
  implemented in a file that is not part of the sources at hand. Section 4.E: \<open>ReserveSpace\<close>
  allocates \<open>size\<close> bytes at the end of the log and returns the offset, a writable slice and
  a reservation token; \<open>FinalizeWrite\<close> marks the reservation ready; \<open>Sync\<close> makes the
  finalized bytes durable. The log is the list of its reservations in offset order; the
  token is the position of the reservation, and the slice \<open>wbuf\<close> aliases its bytes.
\<close>

record lssBlock =
  blk_buf :: "byte list"
  blk_finalized :: bool

record LSS =
  lss_blocks :: "lssBlock list"
  lss_synced :: nat

definition ReserveSpace :: "LSS \<Rightarrow> nat \<Rightarrow> (nat \<times> nat) \<times> LSS" where
  "ReserveSpace l sz =
     ((sum_list (map (\<lambda>b. length (blk_buf b)) (lss_blocks l)), length (lss_blocks l)),
      l\<lparr>lss_blocks := lss_blocks l @ [\<lparr>blk_buf = replicate sz 0, blk_finalized = False\<rparr>]\<rparr>)"

definition lss_wbuf :: "LSS \<Rightarrow> nat \<Rightarrow> byte list" where
  "lss_wbuf l res = blk_buf (lss_blocks l ! res)"

definition lss_set_wbuf :: "LSS \<Rightarrow> nat \<Rightarrow> byte list \<Rightarrow> LSS" where
  "lss_set_wbuf l res wbuf =
     l\<lparr>lss_blocks := (lss_blocks l)[res := (lss_blocks l ! res)\<lparr>blk_buf := wbuf\<rparr>]\<rparr>"

definition FinalizeWrite :: "LSS \<Rightarrow> nat \<Rightarrow> LSS" where
  "FinalizeWrite l res =
     l\<lparr>lss_blocks := (lss_blocks l)[res := (lss_blocks l ! res)\<lparr>blk_finalized := True\<rparr>]\<rparr>"

definition Sync :: "LSS \<Rightarrow> bool \<Rightarrow> LSS" where
  "Sync l force = l\<lparr>lss_synced := length (takeWhile blk_finalized (lss_blocks l))\<rparr>"

section \<open>Snapshots and the store (mvcc.go)\<close>

text \<open>
  Snapshots live on a heap and refer to each other by address. The heap is a list, an
  address an index into it, and \<open>None\<close> the \<open>nil\<close> pointer; allocation appends.
\<close>

record Snapshot =
  snap_sn :: uint64
  snap_refCount :: "32 word"
  snap_child :: "nat option"
  snap_count :: "64 word"
  snap_persisted :: bool
  snap_meta :: "byte list"

record Writer =
  w_count :: "64 word"
  w_reclaimList :: "nat list"

text \<open>
  The fields of \<open>Plasma\<close> that mvcc.go touches. The struct and its \<open>Config\<close> are declared
  elsewhere; \<open>MaxSnSyncFrequency\<close> and \<open>numSnCreated\<close> are taken to be Go \<open>int\<close>s of 64
  bits (the code converts \<open>freq + 1\<close> to \<open>uint64\<close> and takes \<open>numSnCreated % freq\<close>).
  \<open>freed\<close> records the reclaim lists that were handed over for reclamation.
\<close>

record Plasma =
  EnableShapshots :: bool
  shouldPersist :: bool
  useMemMgmt :: bool
  MaxSnSyncFrequency :: "64 word"
  numSnCreated :: "64 word"
  currSn :: uint64
  lastMaxSn :: uint64
  gcSn :: uint64
  itemsCount :: "64 word"
  currSnapshot :: "nat option"
  snapshots :: "Snapshot list"
  wlist :: "Writer list"
  lss :: LSS
  freed :: "nat list list list"

text \<open>
  Modelled from the spec: \<open>FreeObjects\<close> is not part of the sources at hand. Section 5:
  detached objects are staged on reclaim lists and freed once the snapshots that were
  active at staging time have closed. The lists handed over are recorded, in order.
\<close>

definition FreeObjects :: "Plasma \<Rightarrow> nat list list \<Rightarrow> Plasma" where
  "FreeObjects s smrList = s\<lparr>freed := freed s @ [smrList]\<rparr>"

text \<open>Go's \<open>%\<close> on signed integers truncates towards zero and panics on a zero divisor.\<close>

definition go_rem :: "64 word \<Rightarrow> 64 word \<Rightarrow> error + 64 word" where
  "go_rem x y = (if y = 0 then Inl DivideByZero else Inr (word_of_int (sint x smod sint y)))"

definition decodeMaxSn :: "byte list \<Rightarrow> error + uint64" where
  "decodeMaxSn data = Uint64 data"

definition updateMaxSn :: "Plasma \<Rightarrow> uint64 \<Rightarrow> bool \<Rightarrow> error + Plasma" where
  "updateMaxSn s sn_arg force =
     (if shouldPersist s then
        let freq = MaxSnSyncFrequency s in
        bindE (go_rem (numSnCreated s) freq) (\<lambda>r.
        bindE
          (if r = 0 \<or> force then
             let maxSn = sn_arg + (freq + 1) in
             bindE (PutUint64 (replicate 8 0) 0 maxSn) (\<lambda>bs.
             case ReserveSpace (lss s) (length bs + lssBlockTypeSize) of ((off, res), l) \<Rightarrow>
             bindE (writeLSSBlock (lss_wbuf l res) lssMaxSn bs) (\<lambda>wbuf.
             Inr (s\<lparr>lss := Sync (FinalizeWrite (lss_set_wbuf l res wbuf) res) True,
                     lastMaxSn := maxSn\<rparr>)))
           else Inr s)
          (\<lambda>s. Inr (s\<lparr>numSnCreated := numSnCreated s + 1\<rparr>)))
      else Inr s)"

text \<open>The loop of \<open>newSnapshot\<close> over the writers: \<open>(smrList, itemsCount, writers)\<close>.\<close>

fun rollup_writers :: "bool \<Rightarrow> Writer list \<Rightarrow> nat list list \<Rightarrow> 64 word \<Rightarrow>
    nat list list \<times> 64 word \<times> Writer list" where
  "rollup_writers mm [] smrList cnt = (smrList, cnt, [])"
| "rollup_writers mm (w # ws) smrList cnt =
     (let (smrList', w') =
            (if mm \<and> 0 < length (w_reclaimList w)
             then (smrList @ [w_reclaimList w], w\<lparr>w_reclaimList := []\<rparr>)
             else (smrList, w));
          cnt' = cnt + w_count w';
          w'' = w'\<lparr>w_count := 0\<rparr>
      in case rollup_writers mm ws smrList' cnt' of
           (l, c, ws') \<Rightarrow> (l, c, w'' # ws'))"

text \<open>
  \<open>newSnapshot\<close> returns the address held in the named result \<open>snap\<close> together with the
  store after the call. Writing through a \<open>nil\<close> or dangling \<open>currSnapshot\<close> fails.
\<close>

definition newSnapshot :: "Plasma \<Rightarrow> error + (nat \<times> Plasma)" where
  "newSnapshot s =
     (if \<not> EnableShapshots s then Inl (Panic ''snapshots not enabled'')
      else case currSnapshot s of
        None \<Rightarrow> Inl NilDereference
      | Some snap \<Rightarrow>
         if \<not> snap < length (snapshots s) then Inl NilDereference
         else
           let s = s\<lparr>currSn := currSn s + 1\<rparr>;
               nextSnap = length (snapshots s);
               s = s\<lparr>snapshots := snapshots s @
                      [\<lparr>snap_sn = currSn s, snap_refCount = 2, snap_child = None,
                        snap_count = 0, snap_persisted = False, snap_meta = []\<rparr>]\<rparr>;
               s = s\<lparr>snapshots := (snapshots s)[snap := (snapshots s ! snap)\<lparr>snap_child := Some nextSnap\<rparr>]\<rparr>;
               s = s\<lparr>currSnapshot := Some nextSnap\<rparr>
           in bindE (updateMaxSn s (snap_sn (snapshots s ! nextSnap)) False) (\<lambda>s.
              case rollup_writers (useMemMgmt s) (wlist s) [] (itemsCount s) of
                (smrList, cnt, ws) \<Rightarrow>
                  let s = s\<lparr>itemsCount := cnt, wlist := ws\<rparr>;
                      s = s\<lparr>snapshots := (snapshots s)[snap := (snapshots s ! snap)\<lparr>snap_count := itemsCount s\<rparr>]\<rparr>;
                      s = FreeObjects s smrList
                  in Inr (snap, s)))"

definition NewSnapshot :: "Plasma \<Rightarrow> error + (nat \<times> Plasma)" where
  "NewSnapshot s = newSnapshot s"

definition snap0 :: Snapshot where
  "snap0 = \<lparr>snap_sn = 1, snap_refCount = 2, snap_child = None, snap_count = 0,
            snap_persisted = False, snap_meta = []\<rparr>"

definition plasma0 :: Plasma where
  "plasma0 = \<lparr>EnableShapshots = True, shouldPersist = True, useMemMgmt = False,
     MaxSnSyncFrequency = 10, numSnCreated = 0, currSn = 1, lastMaxSn = 0, gcSn = 0,
     itemsCount = 5, currSnapshot = Some 0, snapshots = [snap0],
     wlist = [\<lparr>w_count = 3, w_reclaimList = []\<rparr>, \<lparr>w_count = - 1, w_reclaimList = [4]\<rparr>],
     lss = \<lparr>lss_blocks = [], lss_synced = 0\<rparr>, freed = []\<rparr>"

section \<open>Pages as delta chains\<close>

text \<open>
  An item is reached through an \<open>unsafe.Pointer\<close>. \<open>NilPtr\<close> is the \<open>nil\<close> pointer,
  \<open>MaxItem\<close> the sentinel \<open>skiplist.MaxItem\<close>, and \<open>Item bs\<close> a pointer to an allocation
  that holds the bytes \<open>bs\<close>. How many of them belong to the item is decided by the
  \<open>itemSize\<close> function of the store context.
\<close>

datatype ptr = NilPtr | MaxItem | Item "byte list"

text \<open>A \<open>PageId\<close> is an opaque handle; \<open>None\<close> is the \<open>nil\<close> interface value.\<close>

type_synonym PageId = "nat option"

text \<open>The two operations a \<open>recordDelta\<close> can carry.\<close>

datatype recordOp = opInsertDelta | opDeleteDelta

text \<open>The numbering of \<open>pageOp\<close>: \<open>iota\<close> in the order of declaration.\<close>

definition opBasePage_code :: uint16 where "opBasePage_code = 0"

fun recordOp_code :: "recordOp \<Rightarrow> uint16" where
  "recordOp_code opInsertDelta = 1"
| "recordOp_code opDeleteDelta = 2"

definition opPageSplitDelta_code :: uint16 where "opPageSplitDelta_code = 3"
definition opPageRemoveDelta_code :: uint16 where "opPageRemoveDelta_code = 4"
definition opPageMergeDelta_code :: uint16 where "opPageMergeDelta_code = 5"
definition opFlushPageDelta_code :: uint16 where "opFlushPageDelta_code = 6"

text \<open>The header that every node of a chain starts with, without \<open>op\<close> and \<open>next\<close>.\<close>

record hdr =
  chainLen :: uint16
  numItems :: uint16
  hiItm :: ptr
  rightSibling :: PageId

text \<open>
  The closed set of chain nodes. The constructor stands for the \<open>op\<close> tag; the node after
  the header is \<open>next\<close>, and \<open>NilDelta\<close> is the \<open>nil\<close> chain. A \<open>basePage\<close> has no \<open>next\<close>
  (the field at that place is its \<open>data\<close> pointer) and carries \<open>items\<close>.
\<close>

datatype pageDelta =
    NilDelta
  | BasePage hdr "ptr list"
  | RecordDelta recordOp hdr pageDelta ptr
  | SplitPageDelta hdr pageDelta ptr
  | MergePageDelta hdr pageDelta ptr pageDelta
  | FlushPageDelta hdr pageDelta uint64
  | RemovePageDelta hdr pageDelta

record storeCtx =
  itemSize :: "ptr \<Rightarrow> nat"
  cmp :: "ptr \<Rightarrow> ptr \<Rightarrow> int"
  getDeltas :: "PageId \<Rightarrow> pageDelta"
  getPageId :: "ptr \<Rightarrow> PageId"
  getItem :: "PageId \<Rightarrow> ptr"

record page =
  low :: ptr
  prevHeadPtr :: "nat option"
  head :: pageDelta

text \<open>The zero value of the header, and reading the header of a node.\<close>

definition hdr0 :: hdr where
  "hdr0 = \<lparr>chainLen = 0, numItems = 0, hiItm = NilPtr, rightSibling = None\<rparr>"

fun hdr_of :: "pageDelta \<Rightarrow> hdr" where
  "hdr_of NilDelta = hdr0"
| "hdr_of (BasePage h its) = h"
| "hdr_of (RecordDelta opr h nx x) = h"
| "hdr_of (SplitPageDelta h nx x) = h"
| "hdr_of (MergePageDelta h nx x sib) = h"
| "hdr_of (FlushPageDelta h nx off) = h"
| "hdr_of (RemovePageDelta h nx) = h"

text \<open>
  Reading \<open>pd.next\<close>. On \<open>nil\<close> this is a nil dereference; on a \<open>basePage\<close> the field read
  is the \<open>data\<close> pointer, which is no chain.
\<close>

fun next_of :: "pageDelta \<Rightarrow> error + pageDelta" where
  "next_of NilDelta = Inl NilDereference"
| "next_of (BasePage h its) = Inl MemFault"
| "next_of (RecordDelta opr h nx x) = Inr nx"
| "next_of (SplitPageDelta h nx x) = Inr nx"
| "next_of (MergePageDelta h nx x sib) = Inr nx"
| "next_of (FlushPageDelta h nx off) = Inr nx"
| "next_of (RemovePageDelta h nx) = Inr nx"

text \<open>
  \<open>memcopy(dst, src, sz)\<close> of util.go reads \<open>sz\<close> bytes at \<open>src\<close> without any check.
  Copying nothing touches no memory; reading past the allocation, or through \<open>nil\<close> or the
  sentinel, is a fault.
\<close>

fun memread :: "ptr \<Rightarrow> nat \<Rightarrow> error + byte list" where
  "memread (Item bs) sz = (if sz \<le> length bs then Inr (take sz bs) else Inl MemFault)"
| "memread p sz = (if sz = 0 then Inr [] else Inl MemFault)"

definition newRecordDelta :: "page \<Rightarrow> recordOp \<Rightarrow> ptr \<Rightarrow> pageDelta" where
  "newRecordDelta pg opr itm =
     (let h = (if head pg = NilDelta then hdr0\<lparr>hiItm := MaxItem\<rparr> else hdr_of (head pg))
      in RecordDelta opr (h\<lparr>chainLen := chainLen h + 1\<rparr>) (head pg) itm)"

definition newSplitPageDelta :: "page \<Rightarrow> ptr \<Rightarrow> PageId \<Rightarrow> pageDelta" where
  "newSplitPageDelta pg itm pid =
     (let h = (if head pg \<noteq> NilDelta then hdr_of (head pg) else hdr0)
      in SplitPageDelta (h\<lparr>chainLen := chainLen h + 1, rightSibling := pid\<rparr>) (head pg) itm)"

definition newMergePageDelta :: "page \<Rightarrow> ptr \<Rightarrow> pageDelta \<Rightarrow> error + pageDelta" where
  "newMergePageDelta pg itm sibl =
     (let h = (if head pg \<noteq> NilDelta
               then hdr0\<lparr>chainLen := chainLen (hdr_of (head pg)),
                         numItems := numItems (hdr_of (head pg))\<rparr>
               else hdr0)
      in if sibl = NilDelta then Inl NilDereference
         else Inr (MergePageDelta
                (h\<lparr>chainLen := chainLen h + (chainLen (hdr_of sibl) + 1),
                   numItems := numItems h + numItems (hdr_of sibl),
                   rightSibling := rightSibling (hdr_of sibl)\<rparr>)
                (head pg) itm sibl))"

definition newRemovePageDelta :: "page \<Rightarrow> error + pageDelta" where
  "newRemovePageDelta pg =
     (if head pg = NilDelta then Inl NilDereference
      else Inr (RemovePageDelta (hdr_of (head pg)) (head pg)))"

text \<open>
  \<open>newBasePage\<close> copies \<open>itemSize(itm)\<close> bytes of every item into fresh memory; the new
  item pointers address the copies.
\<close>

fun copy_items :: "storeCtx \<Rightarrow> ptr list \<Rightarrow> error + ptr list" where
  "copy_items ctx [] = Inr []"
| "copy_items ctx (itm # itms) =
     bindE (memread itm (itemSize ctx itm)) (\<lambda>bs.
     bindE (copy_items ctx itms) (\<lambda>rest.
     Inr (Item bs # rest)))"

definition newBasePage :: "storeCtx \<Rightarrow> page \<Rightarrow> ptr list \<Rightarrow> error + pageDelta" where
  "newBasePage ctx pg itms =
     bindE (copy_items ctx itms) (\<lambda>items.
     let h = hdr0\<lparr>numItems := of_nat (length itms)\<rparr>;
         h = (if head pg \<noteq> NilDelta
              then h\<lparr>rightSibling := rightSibling (hdr_of (head pg)),
                     hiItm := hiItm (hdr_of (head pg))\<rparr>
              else h)
     in Inr (BasePage h items))"

definition InRange :: "storeCtx \<Rightarrow> page \<Rightarrow> ptr \<Rightarrow> bool" where
  "InRange ctx pg itm =
     (if head pg \<noteq> NilDelta \<and> 0 \<le> cmp ctx itm (hiItm (hdr_of (head pg))) then False else True)"

definition Insert :: "page \<Rightarrow> ptr \<Rightarrow> page" where
  "Insert pg itm = pg\<lparr>head := newRecordDelta pg opInsertDelta itm\<rparr>"

definition Delete :: "page \<Rightarrow> ptr \<Rightarrow> page" where
  "Delete pg itm = pg\<lparr>head := newRecordDelta pg opDeleteDelta itm\<rparr>"

definition Close :: "page \<Rightarrow> error + page" where
  "Close pg = bindE (newRemovePageDelta pg) (\<lambda>pd. Inr (pg\<lparr>head := pd\<rparr>))"

text \<open>
  \<open>sort.Search(n, f)\<close> of the Go library: binary search for the least index in \<open>[0, n)\<close>
  at which \<open>f\<close> holds. Here \<open>f\<close> may panic.
\<close>

function search_loop :: "(nat \<Rightarrow> error + bool) \<Rightarrow> nat \<Rightarrow> nat \<Rightarrow> error + nat" where
  "search_loop f i j =
     (if i < j then
        (let h = (i + j) div 2 in
         case f h of
           Inl e \<Rightarrow> Inl e
         | Inr b \<Rightarrow> if \<not> b then search_loop f (h + 1) j else search_loop f i h)
      else Inr i)"
  by pat_completeness auto
termination
  by (relation "measure (\<lambda>(f, i, j). j - i)") auto

declare search_loop.simps [simp del]

definition sort_Search :: "nat \<Rightarrow> (nat \<Rightarrow> error + bool) \<Rightarrow> error + nat" where
  "sort_Search n f = search_loop f 0 n"

text \<open>Indexing a slice panics outside its length.\<close>

definition index :: "'a list \<Rightarrow> nat \<Rightarrow> error + 'a" where
  "index xs i = (if i < length xs then Inr (xs ! i) else Inl IndexOutOfRange)"

text \<open>The loop of \<open>Lookup\<close> from the node \<open>pd\<close> on; \<open>NilPtr\<close> is the answer "not found".\<close>

fun lookup_chain :: "storeCtx \<Rightarrow> pageDelta \<Rightarrow> ptr \<Rightarrow> error + ptr" where
  "lookup_chain ctx NilDelta itm = Inr NilPtr"
| "lookup_chain ctx (RecordDelta opInsertDelta h nx x) itm =
     (if cmp ctx x itm = 0 then Inr x else lookup_chain ctx nx itm)"
| "lookup_chain ctx (RecordDelta opDeleteDelta h nx x) itm =
     (if cmp ctx x itm = 0 then Inr NilPtr else lookup_chain ctx nx itm)"
| "lookup_chain ctx (BasePage h its) itm =
     (let n = unat (numItems h) in
      bindE (sort_Search n (\<lambda>i. bindE (index its i) (\<lambda>x. Inr (0 \<le> cmp ctx x itm)))) (\<lambda>idx.
      if idx < n then
        bindE (index its idx) (\<lambda>x. if cmp ctx x itm = 0 then Inr x else Inr NilPtr)
      else Inr NilPtr))"
| "lookup_chain ctx (SplitPageDelta h nx x) itm = lookup_chain ctx nx itm"
| "lookup_chain ctx (MergePageDelta h nx x sib) itm =
     (if 0 \<le> cmp ctx itm x then lookup_chain ctx sib itm else lookup_chain ctx nx itm)"
| "lookup_chain ctx (FlushPageDelta h nx off) itm = Inl (Panic ''should not happen op'')"
| "lookup_chain ctx (RemovePageDelta h nx) itm = Inl (Panic ''should not happen op'')"

definition Lookup :: "storeCtx \<Rightarrow> page \<Rightarrow> ptr \<Rightarrow> error + ptr" where
  "Lookup ctx pg itm =
     (if head pg = NilDelta then Inr NilPtr
      else if 0 \<le> cmp ctx itm (hiItm (hdr_of (head pg)))
           then lookup_chain ctx (getDeltas ctx (rightSibling (hdr_of (head pg)))) itm
           else lookup_chain ctx (head pg) itm)"

text \<open>Writing the field \<open>hiItm\<close> of a node.\<close>

fun set_hdr :: "(hdr \<Rightarrow> hdr) \<Rightarrow> pageDelta \<Rightarrow> pageDelta" where
  "set_hdr f NilDelta = NilDelta"
| "set_hdr f (BasePage h its) = BasePage (f h) its"
| "set_hdr f (RecordDelta opr h nx x) = RecordDelta opr (f h) nx x"
| "set_hdr f (SplitPageDelta h nx x) = SplitPageDelta (f h) nx x"
| "set_hdr f (MergePageDelta h nx x sib) = MergePageDelta (f h) nx x sib"
| "set_hdr f (FlushPageDelta h nx off) = FlushPageDelta (f h) nx off"
| "set_hdr f (RemovePageDelta h nx) = RemovePageDelta (f h) nx"

text \<open>
  \<open>Merge\<close>: the sibling's chain is taken below its head, \<open>sp.head.next\<close>; the pivot is the
  hiItm of this page.
\<close>

definition Merge :: "page \<Rightarrow> page \<Rightarrow> error + page" where
  "Merge pg sp =
     bindE (next_of (head sp)) (\<lambda>siblPage.
     if head pg = NilDelta then Inl NilDereference
     else bindE (newMergePageDelta pg (hiItm (hdr_of (head pg))) siblPage) (\<lambda>pdm.
          Inr (pg\<lparr>head := set_hdr (\<lambda>h. h\<lparr>hiItm := hiItm (hdr_of siblPage)\<rparr>) pdm\<rparr>)))"

section \<open>A store context over byte-string keys\<close>

text \<open>
  A concrete context for running the operations: an item is a length byte followed by
  that many key bytes, items are compared as byte strings, \<open>MaxItem\<close> is above and \<open>nil\<close>
  below every item. Page 1 is an empty page with low key \<open>[1, 9]\<close>.
\<close>

fun bytes_Compare :: "byte list \<Rightarrow> byte list \<Rightarrow> int" where
  "bytes_Compare [] [] = 0"
| "bytes_Compare [] (y # ys) = - 1"
| "bytes_Compare (x # xs) [] = 1"
| "bytes_Compare (x # xs) (y # ys) =
     (if x < y then - 1 else if y < x then 1 else bytes_Compare xs ys)"

fun cmp0 :: "ptr \<Rightarrow> ptr \<Rightarrow> int" where
  "cmp0 (Item x) (Item y) = bytes_Compare x y"
| "cmp0 MaxItem MaxItem = 0"
| "cmp0 MaxItem q = 1"
| "cmp0 p MaxItem = - 1"
| "cmp0 NilPtr NilPtr = 0"
| "cmp0 NilPtr q = - 1"
| "cmp0 p NilPtr = 1"

fun itemSize0 :: "ptr \<Rightarrow> nat" where
  "itemSize0 (Item (n # bs)) = 1 + unat n"
| "itemSize0 p = 0"

definition ctx0 :: storeCtx where
  "ctx0 = \<lparr>itemSize = itemSize0, cmp = cmp0,
            getDeltas = (\<lambda>pid. NilDelta),
            getPageId = (\<lambda>p. if p = MaxItem then None else Some 1),
            getItem = (\<lambda>pid. if pid = None then MaxItem else Item [1, 9])\<rparr>"

definition base0 :: pageDelta where
  "base0 = BasePage \<lparr>chainLen = 0, numItems = 4, hiItm = MaxItem, rightSibling = None\<rparr>
             [Item [1, 1], Item [1, 3], Item [1, 5], Item [1, 7]]"

definition page0 :: page where
  "page0 = \<lparr>low = NilPtr, prevHeadPtr = None, head = base0\<rparr>"

definition base1 :: pageDelta where
  "base1 = BasePage \<lparr>chainLen = 0, numItems = 2, hiItm = Item [1, 9], rightSibling = Some 1\<rparr>
             [Item [1, 7], Item [1, 8]]"

definition page1 :: page where
  "page1 = \<lparr>low = Item [1, 7], prevHeadPtr = None, head = base1\<rparr>"

section \<open>Marshalling a page\<close>

text \<open>
  \<open>Marshal(buf)\<close> writes at \<open>woffset\<close> into the caller's buffer and returns
  \<open>buf[:woffset]\<close>. The model carries the bytes written so far, \<open>out\<close> (so \<open>woffset\<close> is
  \<open>length out\<close>), and the length \<open>cap\<close> of the buffer. \<open>put16\<close> is
  \<open>PutUint16(buf[woffset:woffset+2], v)\<close>, \<open>put64\<close> its 64-bit sibling, and \<open>put_item\<close>
  is \<open>memcopy(&buf[woffset], src, l)\<close>: the index expression panics at the end of the
  buffer, the copy itself is unchecked and faults when it runs over it.
\<close>

definition put16 :: "nat \<Rightarrow> byte list \<Rightarrow> uint16 \<Rightarrow> error + byte list" where
  "put16 cap out v = (if length out + 2 \<le> cap then Inr (out @ be16 v) else Inl IndexOutOfRange)"

definition put64 :: "nat \<Rightarrow> byte list \<Rightarrow> uint64 \<Rightarrow> error + byte list" where
  "put64 cap out v = (if length out + 8 \<le> cap then Inr (out @ be64 v) else Inl IndexOutOfRange)"

definition put_item :: "nat \<Rightarrow> byte list \<Rightarrow> ptr \<Rightarrow> nat \<Rightarrow> error + byte list" where
  "put_item cap out src l =
     (if \<not> length out < cap then Inl IndexOutOfRange
      else if cap < length out + l then Inl MemFault
      else bindE (memread src l) (\<lambda>bs. Inr (out @ bs)))"

text \<open>An item with its length in front: \<open>{len: u16, bytes}\<close>, the length truncated by \<open>uint16\<close>.\<close>

definition put_sized :: "storeCtx \<Rightarrow> nat \<Rightarrow> byte list \<Rightarrow> ptr \<Rightarrow> error + byte list" where
  "put_sized ctx cap out itm =
     (let l = itemSize ctx itm in
      bindE (put16 cap out (of_nat l)) (\<lambda>out. put_item cap out itm l))"

text \<open>The fields \<open>hiItm\<close> and \<open>rightSibling\<close> of the header: length 0 stands for \<open>MaxItem\<close>.\<close>

definition put_bound :: "storeCtx \<Rightarrow> nat \<Rightarrow> byte list \<Rightarrow> ptr \<Rightarrow> error + byte list" where
  "put_bound ctx cap out p =
     (if p = MaxItem then put16 cap out 0 else put_sized ctx cap out p)"

text \<open>The loop over the items of the base page, counting the items written.\<close>

fun marshal_items :: "storeCtx \<Rightarrow> page \<Rightarrow> nat \<Rightarrow> byte list \<Rightarrow> ptr list \<Rightarrow> nat \<Rightarrow>
    error + (byte list \<times> nat)" where
  "marshal_items ctx pg cap out [] nItms = Inr (out, nItms)"
| "marshal_items ctx pg cap out (itm # itms) nItms =
     (if InRange ctx pg itm
      then bindE (put_sized ctx cap out itm) (\<lambda>out.
           marshal_items ctx pg cap out itms (nItms + 1))
      else marshal_items ctx pg cap out itms nItms)"

text \<open>
  The loop over the chain. It stops after a base page or a flush delta; split, merge and
  remove deltas have no case in the switch and write nothing.
\<close>

fun marshal_chain :: "storeCtx \<Rightarrow> page \<Rightarrow> nat \<Rightarrow> byte list \<Rightarrow> pageDelta \<Rightarrow> error + byte list" where
  "marshal_chain ctx pg cap out NilDelta = Inr out"
| "marshal_chain ctx pg cap out (RecordDelta opr h nx itm) =
     (if InRange ctx pg itm
      then bindE (put16 cap out (recordOp_code opr)) (\<lambda>out.
           bindE (put_sized ctx cap out itm) (\<lambda>out.
           marshal_chain ctx pg cap out nx))
      else marshal_chain ctx pg cap out nx)"
| "marshal_chain ctx pg cap out (BasePage h its) =
     bindE (put16 cap out opBasePage_code) (\<lambda>out.
     let bufnitm = length out in
     if cap < bufnitm + 2 then Inl IndexOutOfRange
     else bindE (marshal_items ctx pg cap (out @ [0, 0]) its 0) (\<lambda>(out, nItms).
          store out bufnitm (be16 (of_nat nItms))))"
| "marshal_chain ctx pg cap out (FlushPageDelta h nx off) =
     bindE (put16 cap out opFlushPageDelta_code) (\<lambda>out. put64 cap out off)"
| "marshal_chain ctx pg cap out (SplitPageDelta h nx x) = marshal_chain ctx pg cap out nx"
| "marshal_chain ctx pg cap out (MergePageDelta h nx x sib) = marshal_chain ctx pg cap out nx"
| "marshal_chain ctx pg cap out (RemovePageDelta h nx) = marshal_chain ctx pg cap out nx"

definition Marshal :: "storeCtx \<Rightarrow> page \<Rightarrow> nat \<Rightarrow> error + byte list" where
  "Marshal ctx pg cap =
     (if head pg = NilDelta then Inr []
      else
        bindE (put16 cap [] (chainLen (hdr_of (head pg)))) (\<lambda>out.
        bindE (put16 cap out (numItems (hdr_of (head pg)))) (\<lambda>out.
        bindE (put_bound ctx cap out (hiItm (hdr_of (head pg)))) (\<lambda>out.
        bindE (put_bound ctx cap out (getItem ctx (rightSibling (hdr_of (head pg))))) (\<lambda>out.
        marshal_chain ctx pg cap out (head pg))))))"

text \<open>
  The encoding in the words of the specification: the header, then the deltas from the
  head down to the first base page or flush delta, where record deltas are written only
  for items in range.
\<close>

definition enc_sized :: "storeCtx \<Rightarrow> ptr \<Rightarrow> byte list" where
  "enc_sized ctx itm = be16 (of_nat (itemSize ctx itm)) @ take (itemSize ctx itm) (case itm of Item bs \<Rightarrow> bs | _ \<Rightarrow> [])"

fun enc_deltas :: "storeCtx \<Rightarrow> ptr \<Rightarrow> pageDelta \<Rightarrow> byte list" where
  "enc_deltas ctx hi NilDelta = []"
| "enc_deltas ctx hi (RecordDelta opr h nx itm) =
     (if cmp ctx itm hi < 0 then be16 (recordOp_code opr) @ enc_sized ctx itm else []) @
     enc_deltas ctx hi nx"
| "enc_deltas ctx hi (BasePage h its) =
     (let inr = filter (\<lambda>itm. cmp ctx itm hi < 0) its
      in be16 opBasePage_code @ be16 (of_nat (length inr)) @ concat (map (enc_sized ctx) inr))"
| "enc_deltas ctx hi (FlushPageDelta h nx off) = be16 opFlushPageDelta_code @ be64 off"
| "enc_deltas ctx hi (SplitPageDelta h nx x) = enc_deltas ctx hi nx"
| "enc_deltas ctx hi (MergePageDelta h nx x sib) = enc_deltas ctx hi nx"
| "enc_deltas ctx hi (RemovePageDelta h nx) = enc_deltas ctx hi nx"

definition enc_bound :: "storeCtx \<Rightarrow> ptr \<Rightarrow> byte list" where
  "enc_bound ctx p = (if p = MaxItem then be16 0 else enc_sized ctx p)"

definition enc_page :: "storeCtx \<Rightarrow> page \<Rightarrow> byte list" where
  "enc_page ctx pg =
     (let h = hdr_of (head pg) in
      be16 (chainLen h) @ be16 (numItems h) @ enc_bound ctx (hiItm h) @
      enc_bound ctx (getItem ctx (rightSibling h)) @ enc_deltas ctx (hiItm h) (head pg))"

text \<open>
  What \<open>Marshal\<close> reads through item pointers: an item is readable when the bytes that
  \<open>itemSize\<close> attributes to it lie inside its allocation.
\<close>

definition readable :: "storeCtx \<Rightarrow> ptr \<Rightarrow> bool" where
  "readable ctx p = (case p of Item bs \<Rightarrow> itemSize ctx p \<le> length bs | _ \<Rightarrow> itemSize ctx p = 0)"

fun chain_items :: "pageDelta \<Rightarrow> ptr list" where
  "chain_items NilDelta = []"
| "chain_items (RecordDelta opr h nx itm) = itm # chain_items nx"
| "chain_items (BasePage h its) = its"
| "chain_items (FlushPageDelta h nx off) = []"
| "chain_items (SplitPageDelta h nx x) = chain_items nx"
| "chain_items (MergePageDelta h nx x sib) = chain_items nx"
| "chain_items (RemovePageDelta h nx) = chain_items nx"

definition marshalled_items :: "storeCtx \<Rightarrow> page \<Rightarrow> ptr list" where
  "marshalled_items ctx pg =
     filter (\<lambda>p. p \<noteq> MaxItem)
       [hiItm (hdr_of (head pg)), getItem ctx (rightSibling (hdr_of (head pg)))] @
     chain_items (head pg)"

section \<open>Unmarshalling a page\<close>

definition get16 :: "byte list \<Rightarrow> nat \<Rightarrow> error + uint16" where
  "get16 data roffset = bindE (slice data roffset (roffset + 2)) Uint16"

text \<open>
  The items of a base page: each is the pointer \<open>&data[roffset]\<close> into the incoming bytes;
  the index expression panics at the end of \<open>data\<close>.
\<close>

fun unmarshal_items :: "byte list \<Rightarrow> nat \<Rightarrow> nat \<Rightarrow> error + (ptr list \<times> nat)" where
  "unmarshal_items data roffset 0 = Inr ([], roffset)"
| "unmarshal_items data roffset (Suc n) =
     bindE (get16 data roffset) (\<lambda>l.
     if \<not> roffset + 2 < length data then Inl IndexOutOfRange
     else bindE (unmarshal_items data (roffset + 2 + unat l) n) (\<lambda>(itms, roffset').
          Inr (Item (drop (roffset + 2) data) # itms, roffset')))"

text \<open>What one turn of the loop of \<open>Unmarshal\<close> reads: a record, a base page, or an op it has no case for.\<close>

datatype unode = URec recordOp ptr | UBase "ptr list" | UNone

definition unmarshal_node :: "byte list \<Rightarrow> nat \<Rightarrow> error + (unode \<times> nat)" where
  "unmarshal_node data roffset =
     bindE (get16 data roffset) (\<lambda>opc.
     if opc = recordOp_code opInsertDelta \<or> opc = recordOp_code opDeleteDelta then
       bindE (get16 data (roffset + 2)) (\<lambda>l.
       bindE (slice data (roffset + 4) (roffset + 4 + unat l)) (\<lambda>itm.
       if itm = [] then Inl IndexOutOfRange
       else Inr (URec (if opc = recordOp_code opInsertDelta then opInsertDelta else opDeleteDelta)
                      (Item itm), roffset + 4 + unat l)))
     else if opc = opBasePage_code then
       bindE (get16 data (roffset + 2)) (\<lambda>nItms.
       bindE (unmarshal_items data (roffset + 4) (unat nItms)) (\<lambda>(itms, roffset').
       Inr (UBase itms, roffset')))
     else Inr (UNone, roffset + 2))"

lemma bindE_cong [fundef_cong]:
  "m = m' \<Longrightarrow> (\<And>x. m' = Inr x \<Longrightarrow> f x = f' x) \<Longrightarrow> bindE m f = bindE m' f'"
  by (simp add: bindE_def split: sum.splits)

lemma unmarshal_items_advances:
  "unmarshal_items data roffset n = Inr (itms, roffset') \<Longrightarrow> roffset \<le> roffset'"
proof (induction n arbitrary: roffset itms)
  case 0
  then show ?case by simp
next
  case (Suc n)
  then show ?case
    by (fastforce simp: bindE_def split: sum.splits if_splits prod.splits)
qed

lemma unmarshal_node_advances:
  "unmarshal_node data roffset = Inr (nd, roffset') \<Longrightarrow> roffset < roffset'"
  by (auto simp: unmarshal_node_def bindE_def split: sum.splits if_splits prod.splits
           dest: unmarshal_items_advances)

text \<open>
  The loop of \<open>Unmarshal\<close> from \<open>roffset\<close> on, as the chain that ends up below the node
  linked last. \<open>prev\<close> tells what that node is: none yet (\<open>0\<close>), a record delta (\<open>1\<close>),
  a base page (\<open>2\<close>), or a record delta whose \<open>next\<close> points to itself (\<open>3\<close>).

  An op without a case leaves \<open>pd\<close> as it was, so \<open>lastPd.next = pd\<close> links the record delta
  linked last to itself; the next record or base page read overwrites that link, and the
  chain goes on as if the op had not been there. Only when the data ends in that state is
  the last record delta of the chain left linked to itself: the loop then returns the
  chain with that link cut, and \<open>True\<close> beside it. Before the first node the same
  assignment stores \<open>nil\<close> in \<open>pg.head\<close>. Whatever is linked behind a base page lands in its
  \<open>data\<close> field and is no part of the chain.
\<close>

function unmarshal_loop :: "storeCtx \<Rightarrow> page \<Rightarrow> hdr \<Rightarrow> int \<Rightarrow> byte list \<Rightarrow> nat \<Rightarrow> nat \<Rightarrow>
    error + (pageDelta \<times> bool)" where
  "unmarshal_loop ctx pg h cl data roffset prev =
     (if roffset < length data then
        bindE (unmarshal_node data roffset) (\<lambda>(nd, roffset').
        case nd of
          URec opr itm \<Rightarrow>
            bindE (unmarshal_loop ctx pg h (cl - 1) data roffset' (if prev = 2 then 2 else 1))
              (\<lambda>(rest, selfLinked).
            Inr (RecordDelta opr (h\<lparr>chainLen := of_int cl\<rparr>) rest itm, selfLinked))
        | UBase itms \<Rightarrow>
            bindE (newBasePage ctx pg itms) (\<lambda>bp.
            bindE (unmarshal_loop ctx pg h cl data roffset' 2) (\<lambda>hidden.
            Inr (set_hdr (\<lambda>b. b\<lparr>hiItm := hiItm h, rightSibling := rightSibling h\<rparr>) bp, False)))
        | UNone \<Rightarrow>
            unmarshal_loop ctx pg h cl data roffset' (if prev = 1 then 3 else prev))
      else Inr (NilDelta, prev = 3))"
  by pat_completeness auto
termination
  by (relation "measure (\<lambda>(ctx, pg, h, cl, data, roffset, prev). length data - roffset)")
     (auto dest: unmarshal_node_advances)

declare unmarshal_loop.simps [simp del]

text \<open>
  \<open>Unmarshal\<close>. The header fields are read first; linking the first node through
  \<open>lastPd\<close> fails when the page already has a head. The result is the page after the call,
  and whether the last record delta of its chain is linked to itself.
\<close>

definition Unmarshal :: "storeCtx \<Rightarrow> page \<Rightarrow> byte list \<Rightarrow> error + (page \<times> bool)" where
  "Unmarshal ctx pg data =
     bindE (get16 data 0) (\<lambda>cl.
     bindE (get16 data 2) (\<lambda>ni.
     bindE (get16 data 4) (\<lambda>l.
     bindE (if l = 0 then Inr (MaxItem, 6)
            else if \<not> 6 < length data then Inl IndexOutOfRange
            else bindE (memread (Item (drop 6 data)) (unat l)) (\<lambda>bs. Inr (Item bs, 6 + unat l)))
       (\<lambda>(hi, roffset).
     bindE (get16 data roffset) (\<lambda>l.
     bindE (if l = 0 then Inr (getPageId ctx MaxItem, roffset + 2)
            else if \<not> roffset + 2 < length data then Inl IndexOutOfRange
            else Inr (getPageId ctx (Item (drop (roffset + 2) data)), roffset + 2 + unat l))
       (\<lambda>(rs, roffset).
     if head pg \<noteq> NilDelta then
       (if roffset < length data
        then bindE (unmarshal_node data roffset) (\<lambda>nd. Inl NilDereference)
        else Inr (pg, False))
     else
       bindE (unmarshal_loop ctx pg \<lparr>chainLen = cl, numItems = ni, hiItm = hi, rightSibling = rs\<rparr>
                (uint cl) data roffset 0) (\<lambda>(pd, selfLinked).
       Inr (pg\<lparr>head := pd\<rparr>, selfLinked))))))))"

text \<open>Every node of a chain, the merged siblings apart, carries the given \<open>hiItm\<close>.\<close>

fun all_hiItm :: "ptr \<Rightarrow> pageDelta \<Rightarrow> bool" where
  "all_hiItm p NilDelta = True"
| "all_hiItm p (BasePage h its) = (hiItm h = p)"
| "all_hiItm p (RecordDelta opr h nx x) = (hiItm h = p \<and> all_hiItm p nx)"
| "all_hiItm p (SplitPageDelta h nx x) = (hiItm h = p \<and> all_hiItm p nx)"
| "all_hiItm p (MergePageDelta h nx x sib) = (hiItm h = p \<and> all_hiItm p nx)"
| "all_hiItm p (FlushPageDelta h nx off) = (hiItm h = p \<and> all_hiItm p nx)"
| "all_hiItm p (RemovePageDelta h nx) = (hiItm h = p \<and> all_hiItm p nx)"

definition page2 :: page where
  "page2 = Delete (Insert page1 (Item [1, 10])) (Item [1, 8])"

definition page3 :: page where
  "page3 = Delete (Insert page0 (Item [1, 10])) (Item [1, 8])"

definition bytes3 :: "byte list" where
  "bytes3 = [0, 2, 0, 4, 0, 0, 0, 0, 0, 2, 0, 2, 1, 8, 0, 1, 0, 2, 1, 10,
             0, 0, 0, 4, 0, 2, 1, 1, 0, 2, 1, 3, 0, 2, 1, 5, 0, 2, 1, 7]"

definition empty_page :: page where
  "empty_page = \<lparr>low = NilPtr, prevHeadPtr = None, head = NilDelta\<rparr>"

text \<open>
  A page that was flushed and then written once more: a delete on top of a flush delta.
  \<open>Marshal\<close> stops at the flush delta, after its op and the eight bytes of the offset.
\<close>

definition flushed3 :: page where
  "flushed3 =
     Delete (page0\<lparr>head := FlushPageDelta
                \<lparr>chainLen = 2, numItems = 4, hiItm = MaxItem, rightSibling = None\<rparr>
                (head (Insert page0 (Item [1, 10]))) 0\<rparr>)
            (Item [1, 8])"

definition bytes3f :: "byte list" where
  "bytes3f = [0, 3, 0, 4, 0, 0, 0, 0, 0, 2, 0, 2, 1, 8, 0, 6, 0, 0, 0, 0, 0, 0, 0, 0]"

section \<open>Collecting the items of a page and splitting it\<close>

text \<open>
  A \<open>PageItem\<close> answers \<open>IsInsert()\<close> and \<open>Item()\<close>: a record delta is an insert when its op
  is \<open>opInsertDelta\<close>, an item of the base page always.
\<close>

type_synonym PageItem = "bool \<times> ptr"

definition inRange :: "storeCtx \<Rightarrow> ptr \<Rightarrow> ptr \<Rightarrow> ptr \<Rightarrow> bool" where
  "inRange ctx lo hi itm = (cmp ctx itm hi < 0 \<and> 0 \<le> cmp ctx itm lo)"

text \<open>
  \<open>pageItemSorter.Run\<close> is \<open>sort.Stable\<close> with \<open>Less(i, j) = cmp(itms[i], itms[j]) < 0\<close>.
  The library's stable sort is modelled by an insertion sort, which computes the same
  list for every comparator that orders the items.
\<close>

fun insert_stable :: "storeCtx \<Rightarrow> PageItem \<Rightarrow> PageItem list \<Rightarrow> PageItem list" where
  "insert_stable ctx x [] = [x]"
| "insert_stable ctx x (y # ys) =
     (if cmp ctx (snd y) (snd x) < 0 then y # insert_stable ctx x ys else x # y # ys)"

definition sorter_Run :: "storeCtx \<Rightarrow> PageItem list \<Rightarrow> PageItem list" where
  "sorter_Run ctx itms = foldr (insert_stable ctx) itms []"

text \<open>
  Modelled from the spec: \<open>pageItemSorter.Merge\<close> (with \<open>Add\<close>, which appends, and \<open>Init\<close>,
  which sets the list) is not in the util.go at hand. Section 4.C: the sorted delta
  overlay is merged with the in-range items of the base page, stable, and deltas win on
  equal keys. The first list holds the items of the base page, the second the sorted
  deltas.
\<close>

fun sorter_Merge :: "storeCtx \<Rightarrow> PageItem list \<Rightarrow> PageItem list \<Rightarrow> PageItem list" where
  "sorter_Merge ctx [] ds = ds"
| "sorter_Merge ctx (b # bs) [] = b # bs"
| "sorter_Merge ctx (b # bs) (d # ds) =
     (if cmp ctx (snd b) (snd d) < 0 then b # sorter_Merge ctx bs (d # ds)
      else if cmp ctx (snd b) (snd d) = 0 then d # sorter_Merge ctx bs ds
      else d # sorter_Merge ctx (b # bs) ds)"

text \<open>
  The loop of \<open>collectPageItems\<close> from the node \<open>pd\<close> on; \<open>acc\<close> holds what was added to the
  sorter so far. Flush and remove deltas have no case in the switch.
\<close>

fun collect_loop :: "storeCtx \<Rightarrow> ptr \<Rightarrow> ptr \<Rightarrow> pageDelta \<Rightarrow> PageItem list \<Rightarrow> PageItem list" where
  "collect_loop ctx lo hi NilDelta acc = sorter_Run ctx acc"
| "collect_loop ctx lo hi (RecordDelta opr h nx itm) acc =
     collect_loop ctx lo hi nx
       (if inRange ctx lo hi itm then acc @ [(opr = opInsertDelta, itm)] else acc)"
| "collect_loop ctx lo hi (SplitPageDelta h nx x) acc = collect_loop ctx lo hi nx acc"
| "collect_loop ctx lo hi (MergePageDelta h nx x sib) acc =
     collect_loop ctx lo hi nx (acc @ collect_loop ctx lo hi sib [])"
| "collect_loop ctx lo hi (BasePage h its) acc =
     sorter_Merge ctx (map (\<lambda>itm. (True, itm)) (filter (inRange ctx lo hi) its)) (sorter_Run ctx acc)"
| "collect_loop ctx lo hi (FlushPageDelta h nx off) acc = collect_loop ctx lo hi nx acc"
| "collect_loop ctx lo hi (RemovePageDelta h nx) acc = collect_loop ctx lo hi nx acc"

definition collectPageItems :: "storeCtx \<Rightarrow> pageDelta \<Rightarrow> ptr \<Rightarrow> ptr \<Rightarrow> PageItem list" where
  "collectPageItems ctx pd loItm hiItm' = collect_loop ctx loItm hiItm' pd []"

definition collectItems :: "storeCtx \<Rightarrow> pageDelta \<Rightarrow> ptr \<Rightarrow> ptr \<Rightarrow> ptr list" where
  "collectItems ctx pd loItm hiItm' = map snd (filter fst (collectPageItems ctx pd loItm hiItm'))"

text \<open>
  \<open>Split\<close> walks \<open>next\<close> down to the base page and reads its \<open>items\<close>; without a base page
  the read goes through \<open>nil\<close>.
\<close>

fun find_base :: "pageDelta \<Rightarrow> error + ptr list" where
  "find_base NilDelta = Inl NilDereference"
| "find_base (BasePage h its) = Inr its"
| "find_base (RecordDelta opr h nx x) = find_base nx"
| "find_base (SplitPageDelta h nx x) = find_base nx"
| "find_base (MergePageDelta h nx x sib) = find_base nx"
| "find_base (FlushPageDelta h nx off) = find_base nx"
| "find_base (RemovePageDelta h nx) = find_base nx"

text \<open>The loop \<open>for mid > 0\<close> that moves the pivot down until it is below \<open>hiItm\<close>.\<close>

fun split_mid :: "storeCtx \<Rightarrow> ptr list \<Rightarrow> ptr \<Rightarrow> nat \<Rightarrow> error + nat" where
  "split_mid ctx its hi 0 = Inr 0"
| "split_mid ctx its hi (Suc m) =
     bindE (index its (Suc m)) (\<lambda>x.
     if cmp ctx x hi < 0 then Inr (Suc m) else split_mid ctx its hi m)"

text \<open>
  \<open>Split\<close> returns the new page (\<open>None\<close> for \<open>nil\<close>, the split declined) and the page
  itself after the call.
\<close>

definition Split :: "storeCtx \<Rightarrow> page \<Rightarrow> PageId \<Rightarrow> error + (page option \<times> page)" where
  "Split ctx pg pid =
     bindE (find_base (head pg)) (\<lambda>its.
     bindE (split_mid ctx its (hiItm (hdr_of (head pg))) (length its div 2)) (\<lambda>mid.
     if 0 < mid then
       bindE (index its mid) (\<lambda>pivot.
       let itms = collectItems ctx (head pg) pivot (hiItm (hdr_of (head pg))) in
       bindE (newBasePage ctx pg itms) (\<lambda>bp.
       bindE (index (chain_items bp) 0) (\<lambda>lowItm.
       let newPage = pg\<lparr>prevHeadPtr := None, head := bp, low := lowItm\<rparr>;
           pd = newSplitPageDelta pg pivot pid;
           pd = set_hdr (\<lambda>h. h\<lparr>hiItm := pivot\<rparr>) pd;
           pd = set_hdr (\<lambda>h. h\<lparr>numItems := of_nat (length (take mid its))\<rparr>) pd
       in Inr (Some newPage, pg\<lparr>head := pd\<rparr>))))
     else Inr (None, pg)))"

text \<open>An item whose size is its whole allocation is equal to its copy.\<close>

definition exact :: "storeCtx \<Rightarrow> ptr \<Rightarrow> bool" where
  "exact ctx p = (case p of Item bs \<Rightarrow> itemSize ctx p = length bs | _ \<Rightarrow> False)"

definition page4 :: page where
  "page4 = Delete (Insert (page0\<lparr>head := set_hdr (\<lambda>h. h\<lparr>hiItm := Item [1, 6]\<rparr>) base0\<rparr>)
              (Item [1, 4])) (Item [1, 3])"



section \<open>Persisting a page\<close>

text \<open>
  \<open>Persist\<close> works on the page type of the persistor, whose methods \<open>NeedsFlush\<close>,
  \<open>Marshal\<close> (with segments), \<open>Evict\<close>, \<open>AddFlushRecord\<close>, \<open>IsEvictable\<close> and \<open>GetFlushInfo\<close>
  are declared outside the sources at hand: they are parameters, over any page type
  \<open>'pg\<close>. \<open>Marshal\<close> yields the bytes, \<open>dataSz\<close>, \<open>staleFdSz\<close> and \<open>numSegments\<close>.
\<close>

record 'pg pageOps =
  NeedsFlush :: "'pg \<Rightarrow> bool"
  MarshalSeg :: "'pg \<Rightarrow> nat \<Rightarrow> byte list \<times> nat \<times> nat \<times> int"
  Evict :: "'pg \<Rightarrow> nat \<Rightarrow> int \<Rightarrow> 'pg"
  AddFlushRecord :: "'pg \<Rightarrow> nat \<Rightarrow> nat \<Rightarrow> int \<Rightarrow> 'pg"
  IsEvictable :: "'pg \<Rightarrow> bool"
  GetFlushInfo :: "'pg \<Rightarrow> nat \<times> int \<times> nat"
  MaxPageLSSSegments :: nat

record wCtx =
  FlushDataSz :: "64 word"

definition pgFlushLSSType :: "'pg \<Rightarrow> int \<Rightarrow> lssBlockType" where
  "pgFlushLSSType pg numSegments = (if 0 < numSegments then lssPageUpdate else lssPageData)"

text \<open>
  Modelled from the spec: \<open>ReadPage\<close> and \<open>UpdateMapping\<close> belong to the page table, which
  is not part of the sources at hand. Section 4.D: \<open>UpdateMapping\<close> swaps the head by
  compare-and-swap and fails when another writer changed the mapping since the page was
  read; the caller then retries from a fresh read. What the other writers do is given
  from outside as a trace: its entry for an attempt is the page that \<open>ReadPage\<close> returns
  and the outcome of the compare-and-swap of that attempt.

  \<open>Persist\<close> consumes one entry per turn of its \<open>retry\<close> loop. \<open>None\<close> says that the loop
  is still retrying when the trace ends; \<open>Some (Inr \<dots>)\<close> is the page returned, with the
  store and the writer context after the call.
\<close>

fun Persist :: "'pg pageOps \<Rightarrow> bool \<Rightarrow> ('pg \<times> bool) list \<Rightarrow> Plasma \<Rightarrow> wCtx \<Rightarrow>
    (error + ('pg \<times> Plasma \<times> wCtx)) option" where
  "Persist ops evict [] s ctx = None"
| "Persist ops evict ((pg, ok) # trace) s ctx =
     (if NeedsFlush ops pg then
        (case MarshalSeg ops pg (MaxPageLSSSegments ops) of (bs, dataSz, staleFdSz, numSegments) \<Rightarrow>
         case ReserveSpace (lss s) (lssBlockTypeSize + length bs) of ((offset, res), l) \<Rightarrow>
         case writeLSSBlock (lss_wbuf l res) (pgFlushLSSType pg numSegments) bs of
           Inl e \<Rightarrow> Some (Inl e)
         | Inr wbuf \<Rightarrow>
             let l = lss_set_wbuf l res wbuf;
                 pg' = (if evict then Evict ops pg offset numSegments
                        else AddFlushRecord ops pg offset dataSz numSegments)
             in if ok then
                  Some (Inr (pg', s\<lparr>lss := FinalizeWrite l res\<rparr>,
                             ctx\<lparr>FlushDataSz := FlushDataSz ctx + (of_nat dataSz - of_nat staleFdSz)\<rparr>))
                else
                  (case discardLSSBlock (lss_wbuf l res) of
                     Inl e \<Rightarrow> Some (Inl e)
                   | Inr wbuf \<Rightarrow>
                       Persist ops evict trace
                         (s\<lparr>lss := FinalizeWrite (lss_set_wbuf l res wbuf) res\<rparr>) ctx))
      else if evict \<and> IsEvictable ops pg then
        (case GetFlushInfo ops pg of (offset, numSegs, sz) \<Rightarrow>
         let pg' = Evict ops pg offset numSegs
         in if \<not> ok then Persist ops evict trace s ctx else Some (Inr (pg', s, ctx)))
      else Some (Inr (pg, s, ctx)))"

text \<open>The block that a failed attempt leaves in the log.\<close>

definition discarded :: "'pg pageOps \<Rightarrow> 'pg \<Rightarrow> lssBlock" where
  "discarded ops pg =
     \<lparr>blk_buf = be16 (lssBlockType_code lssDiscard) @ fst (MarshalSeg ops pg (MaxPageLSSSegments ops)),
      blk_finalized = True\<rparr>"

text \<open>A page type for running \<open>Persist\<close>: a page is its bytes and the offset of its last flush.\<close>

definition ops0 :: "(byte list \<times> nat option) pageOps" where
  "ops0 = \<lparr>NeedsFlush = (\<lambda>pg. snd pg = None),
           MarshalSeg = (\<lambda>pg n. (fst pg, length (fst pg), 0, 0)),
           Evict = (\<lambda>pg off n. ([], Some off)),
           AddFlushRecord = (\<lambda>pg off sz n. (fst pg, Some off)),
           IsEvictable = (\<lambda>pg. snd pg \<noteq> None \<and> fst pg \<noteq> []),
           GetFlushInfo = (\<lambda>pg. (case snd pg of None \<Rightarrow> 0 | Some off \<Rightarrow> off, 0, length (fst pg))),
           MaxPageLSSSegments = 4\<rparr>"

section \<open>Basic facts about byte buffers\<close>

lemma bit_byte_at:
  fixes v :: "'a::len word"
  shows "bit (push_bit k (ucast (ucast (drop_bit k v) :: byte)) :: 'a word) n \<longleftrightarrow>
         k \<le> n \<and> n < k + 8 \<and> bit v n"
proof (cases "k \<le> n")
  case True
  then have "k + (n - k) = n" by simp
  then show ?thesis using True by (auto simp: bit_simps dest: bit_imp_le_length)
next
  case False
  then show ?thesis by (simp add: bit_simps)
qed

lemma bit_byte_0:
  fixes v :: "'a::len word"
  shows "bit (ucast (ucast v :: byte) :: 'a word) n \<longleftrightarrow> n < 8 \<and> bit v n"
  by (auto simp: bit_simps dest: bit_imp_le_length)

lemma Uint16_be16: "Uint16 (be16 v) = Inr v"
proof -
  have "push_bit 8 (ucast (ucast (drop_bit 8 v) :: byte)) OR ucast (ucast v :: byte) = v"
    by (rule bit_word_eqI) (auto simp: bit_or_iff bit_byte_at bit_byte_0)
  then show ?thesis by (simp add: Uint16_def be16_def)
qed

lemma Uint32_be32: "Uint32 (be32 v) = Inr v"
proof -
  have "push_bit 24 (ucast (ucast (drop_bit 24 v) :: byte)) OR
        push_bit 16 (ucast (ucast (drop_bit 16 v) :: byte)) OR
        push_bit 8 (ucast (ucast (drop_bit 8 v) :: byte)) OR ucast (ucast v :: byte) = v"
    by (rule bit_word_eqI) (auto simp: bit_or_iff bit_byte_at bit_byte_0)
  then show ?thesis by (simp add: Uint32_def be32_def)
qed

lemma Uint64_be64: "Uint64 (be64 v) = Inr v"
proof -
  have "push_bit 56 (ucast (ucast (drop_bit 56 v) :: byte)) OR
        push_bit 48 (ucast (ucast (drop_bit 48 v) :: byte)) OR
        push_bit 40 (ucast (ucast (drop_bit 40 v) :: byte)) OR
        push_bit 32 (ucast (ucast (drop_bit 32 v) :: byte)) OR
        push_bit 24 (ucast (ucast (drop_bit 24 v) :: byte)) OR
        push_bit 16 (ucast (ucast (drop_bit 16 v) :: byte)) OR
        push_bit 8 (ucast (ucast (drop_bit 8 v) :: byte)) OR ucast (ucast v :: byte) = v"
    by (rule bit_word_eqI) (auto simp: bit_or_iff bit_byte_at bit_byte_0)
  then show ?thesis by (simp add: Uint64_def be64_def)
qed

lemma bindE_Inr [simp]: "bindE (Inr x) f = f x"
  by (simp add: bindE_def)

lemma bindE_Inl [simp]: "bindE (Inl e) f = Inl e"
  by (simp add: bindE_def)

lemma length_be [simp]: "length (be16 a) = 2" "length (be32 b) = 4" "length (be64 c) = 8"
  by (simp_all add: be16_def be32_def be64_def)

lemma store_append:
  "length pre = off \<Longrightarrow> length xs \<le> length zs \<Longrightarrow>
   store (pre @ zs) off xs = Inr (pre @ xs @ drop (length xs) zs)"
  by (simp add: store_def)

lemma copy_at_append:
  "length pre = off \<Longrightarrow> length xs \<le> length zs \<Longrightarrow>
   copy_at (pre @ zs) off xs = Inr (pre @ xs @ drop (length xs) zs)"
  by (simp add: copy_at_def store_def)

lemma slice_middle:
  "bs = a @ xs @ b \<Longrightarrow> off = length a \<Longrightarrow> e = off + length xs \<Longrightarrow> slice bs off e = Inr xs"
  by (simp add: slice_def)

section \<open>Basic facts about the log and the sequence numbers\<close>

lemma go_rem_zero_iff:
  assumes "y \<noteq> 0"
  shows "go_rem x y = Inr r \<Longrightarrow> (r = 0 \<longleftrightarrow> sint y dvd sint x)"
proof -
  assume g: "go_rem x y = Inr r"
  define a b where "a = sint x" and "b = sint y"
  have b0: "b \<noteq> 0" using assms by (simp add: b_def signed_eq_0_iff)
  have bb: "\<bar>b\<bar> \<le> 2 ^ 63"
    using sint_ge [of y] sint_lt [of y] by (simp add: b_def)
  have rng: "- \<bar>b\<bar> + 1 \<le> a smod b" "a smod b \<le> \<bar>b\<bar> - 1"
    using smod_int_range [OF b0, of a] by auto
  have r: "r = word_of_int (a smod b)"
    using g assms by (simp add: go_rem_def a_def b_def)
  have "r = 0 \<longleftrightarrow> (2 :: int) ^ 64 dvd a smod b"
    by (simp add: r word_of_int_eq_0_iff)
  also have "\<dots> \<longleftrightarrow> a smod b = 0"
  proof
    assume d: "(2 :: int) ^ 64 dvd a smod b"
    show "a smod b = 0"
    proof (rule ccontr)
      assume "a smod b \<noteq> 0"
      then have "(2 :: int) ^ 64 \<le> \<bar>a smod b\<bar>"
        using d dvd_imp_le_int [of "a smod b" "2 ^ 64"] by simp
      moreover have "(2 :: int) ^ 63 < 2 ^ 64" by simp
      ultimately show False using rng bb by linarith
    qed
  qed simp
  also have "\<dots> \<longleftrightarrow> sgn a = 0 \<or> \<bar>a\<bar> mod \<bar>b\<bar> = 0"
    by (simp add: signed_modulo_int_def)
  also have "\<dots> \<longleftrightarrow> \<bar>b\<bar> dvd \<bar>a\<bar>"
    by (auto simp: mod_eq_0_iff_dvd sgn_0_0)
  also have "\<dots> \<longleftrightarrow> b dvd a"
    by simp
  finally show ?thesis by (simp add: a_def b_def)
qed


lemma writeLSSBlock_fresh:
  "writeLSSBlock (replicate (length bs + lssBlockTypeSize) 0) typ bs =
     Inr (be16 (lssBlockType_code typ) @ bs)"
proof -
  have c: "copy_at (replicate (length bs + lssBlockTypeSize) 0) lssBlockTypeSize bs =
           Inr (replicate 2 0 @ bs)"
    using copy_at_append [of "replicate 2 0" 2 bs "replicate (length bs) 0"]
    by (simp add: lssBlockTypeSize_def replicate_add [symmetric] add.commute)
  have p: "PutUint16 (replicate 2 0 @ bs) 0 (lssBlockType_code typ) =
           Inr (be16 (lssBlockType_code typ) @ bs)"
    unfolding PutUint16_def
    using store_append [of "[]" 0 "be16 (lssBlockType_code typ)" "replicate 2 0 @ bs"] by simp
  show ?thesis unfolding writeLSSBlock_def by (simp only: c p bindE_Inr)
qed

lemma PutUint64_fresh: "PutUint64 (replicate 8 0) 0 v = Inr (be64 v)"
  unfolding PutUint64_def using store_append [of "[]" 0 "be64 v" "replicate 8 0"] by simp

lemma ReserveSpace_wbuf:
  "ReserveSpace l n = ((off, res), l') \<Longrightarrow>
   res = length (lss_blocks l) \<and> lss_wbuf l' res = replicate n 0 \<and>
   lss_blocks l' = lss_blocks l @ [\<lparr>blk_buf = replicate n 0, blk_finalized = False\<rparr>] \<and>
   lss_synced l' = lss_synced l"
  by (auto simp: ReserveSpace_def lss_wbuf_def)

lemma lss_write_finalize:
  "lss_blocks l' = bl @ [\<lparr>blk_buf = old, blk_finalized = False\<rparr>] \<Longrightarrow>
   lss_blocks (FinalizeWrite (lss_set_wbuf l' (length bl) w) (length bl)) =
     bl @ [\<lparr>blk_buf = w, blk_finalized = True\<rparr>]"
  by (simp add: FinalizeWrite_def lss_set_wbuf_def)

lemma updateMaxSn_write:
  assumes "shouldPersist s" and "go_rem (numSnCreated s) (MaxSnSyncFrequency s) = Inr r"
    and "r = 0 \<or> force"
  shows "\<exists>s'. updateMaxSn s n force = Inr s' \<and> numSnCreated s' = numSnCreated s + 1 \<and>
     lss_blocks (lss s') = lss_blocks (lss s) @
        [\<lparr>blk_buf = be16 (lssBlockType_code lssMaxSn) @ be64 (n + MaxSnSyncFrequency s + 1),
          blk_finalized = True\<rparr>] \<and>
     lastMaxSn s' = n + MaxSnSyncFrequency s + 1"
proof -
  define maxSn where "maxSn = n + (MaxSnSyncFrequency s + 1)"
  obtain off res l where rs: "ReserveSpace (lss s) (length (be64 maxSn) + lssBlockTypeSize) = ((off, res), l)"
    by (metis prod.exhaust)
  note R = ReserveSpace_wbuf [OF rs]
  have w: "writeLSSBlock (lss_wbuf l res) lssMaxSn (be64 maxSn) =
           Inr (be16 (lssBlockType_code lssMaxSn) @ be64 maxSn)"
  proof -
    have "lss_wbuf l res = replicate (length (be64 maxSn) + lssBlockTypeSize) 0" using R by blast
    then show ?thesis by (simp only: writeLSSBlock_fresh)
  qed
  have bl: "lss_blocks (FinalizeWrite (lss_set_wbuf l res (be16 (lssBlockType_code lssMaxSn) @ be64 maxSn)) res) =
        lss_blocks (lss s) @ [\<lparr>blk_buf = be16 (lssBlockType_code lssMaxSn) @ be64 maxSn, blk_finalized = True\<rparr>]"
  proof -
    have "res = length (lss_blocks (lss s))" using R by blast
    moreover have "lss_blocks l = lss_blocks (lss s) @
       [\<lparr>blk_buf = replicate (length (be64 maxSn) + lssBlockTypeSize) 0, blk_finalized = False\<rparr>]"
      using R by blast
    ultimately show ?thesis using lss_write_finalize [of l "lss_blocks (lss s)"] by simp
  qed
  have "updateMaxSn s n force =
        Inr (s\<lparr>lss := Sync (FinalizeWrite (lss_set_wbuf l res (be16 (lssBlockType_code lssMaxSn) @ be64 maxSn)) res) True,
               lastMaxSn := maxSn, numSnCreated := numSnCreated s + 1\<rparr>)"
    unfolding updateMaxSn_def Let_def
    using assms rs w by (simp add: PutUint64_fresh maxSn_def)
  then show ?thesis using bl by (simp add: Sync_def maxSn_def add.assoc)
qed

lemma updateMaxSn_skip:
  assumes "shouldPersist s" and "go_rem (numSnCreated s) (MaxSnSyncFrequency s) = Inr r"
    and "\<not> (r = 0 \<or> force)"
  shows "updateMaxSn s n force = Inr (s\<lparr>numSnCreated := numSnCreated s + 1\<rparr>)"
  unfolding updateMaxSn_def Let_def using assms by simp

section \<open>Basic facts about marshalling\<close>

lemma bindE_eq_Inr: "bindE m f = Inr y \<longleftrightarrow> (\<exists>x. m = Inr x \<and> f x = Inr y)"
  by (cases m) simp_all

lemma put16_Inr: "put16 cap out v = Inr out' \<Longrightarrow> out' = out @ be16 v"
  by (simp add: put16_def split: if_splits)

lemma put64_Inr: "put64 cap out v = Inr out' \<Longrightarrow> out' = out @ be64 v"
  by (simp add: put64_def split: if_splits)

lemma memread_Inr: "memread p l = Inr bs \<Longrightarrow> bs = take l (case p of Item b \<Rightarrow> b | _ \<Rightarrow> [])"
  by (cases p) (simp_all split: if_splits)

lemma put_sized_Inr: "put_sized ctx cap out itm = Inr out' \<Longrightarrow> out' = out @ enc_sized ctx itm"
  by (auto simp: put_sized_def put_item_def enc_sized_def Let_def bindE_eq_Inr
           dest!: put16_Inr memread_Inr split: if_splits)

lemma put_bound_Inr: "put_bound ctx cap out p = Inr out' \<Longrightarrow> out' = out @ enc_bound ctx p"
  by (auto simp: put_bound_def enc_bound_def dest: put16_Inr put_sized_Inr split: if_splits)

lemma InRange_head: "head pg \<noteq> NilDelta \<Longrightarrow> InRange ctx pg itm = (cmp ctx itm (hiItm (hdr_of (head pg))) < 0)"
  by (auto simp: InRange_def)

lemma marshal_items_Inr:
  "head pg \<noteq> NilDelta \<Longrightarrow> marshal_items ctx pg cap out its n = Inr (out', n') \<Longrightarrow>
   out' = out @ concat (map (enc_sized ctx) (filter (\<lambda>itm. cmp ctx itm (hiItm (hdr_of (head pg))) < 0) its)) \<and>
   n' = n + length (filter (\<lambda>itm. cmp ctx itm (hiItm (hdr_of (head pg))) < 0) its)"
proof (induction its arbitrary: out n)
  case Nil
  then show ?case by simp
next
  case (Cons itm its)
  show ?case
  proof (cases "cmp ctx itm (hiItm (hdr_of (head pg))) < 0")
    case True
    then obtain o1 where o1: "put_sized ctx cap out itm = Inr o1"
      and r: "marshal_items ctx pg cap o1 its (n + 1) = Inr (out', n')"
      using Cons.prems by (auto simp: InRange_head bindE_eq_Inr)
    have "o1 = out @ enc_sized ctx itm" using o1 by (rule put_sized_Inr)
    then show ?thesis using Cons.IH [OF Cons.prems(1) r] True by simp
  next
    case False
    then have "marshal_items ctx pg cap out its n = Inr (out', n')"
      using Cons.prems by (simp add: InRange_head)
    then show ?thesis using Cons.IH [OF Cons.prems(1)] False by simp
  qed
qed

lemma marshal_chain_Inr:
  "head pg \<noteq> NilDelta \<Longrightarrow> marshal_chain ctx pg cap out pd = Inr out' \<Longrightarrow>
   out' = out @ enc_deltas ctx (hiItm (hdr_of (head pg))) pd"
proof (induction pd arbitrary: out)
  case NilDelta
  then show ?case by simp
next
  case (BasePage h its)
  let ?hi = "hiItm (hdr_of (head pg))"
  let ?inr = "filter (\<lambda>itm. cmp ctx itm ?hi < 0) its"
  obtain o1 o2 n where o1: "put16 cap out opBasePage_code = Inr o1"
    and o2: "marshal_items ctx pg cap (o1 @ [0, 0]) its 0 = Inr (o2, n)"
    and st: "store o2 (length o1) (be16 (of_nat n)) = Inr out'"
    using BasePage.prems(2)
    by (auto simp: bindE_eq_Inr Let_def split: if_splits)
  have e1: "o1 = out @ be16 opBasePage_code" using o1 by (rule put16_Inr)
  have e2: "o2 = (o1 @ [0, 0]) @ concat (map (enc_sized ctx) ?inr)" "n = length ?inr"
    using marshal_items_Inr [OF BasePage.prems(1) o2] by simp_all
  have "store (o1 @ ([0, 0] @ concat (map (enc_sized ctx) ?inr))) (length o1) (be16 (of_nat n)) =
        Inr (o1 @ be16 (of_nat n) @ drop (length (be16 (of_nat n))) ([0, 0] @ concat (map (enc_sized ctx) ?inr)))"
    by (rule store_append) simp_all
  then have "out' = o1 @ be16 (of_nat n) @ concat (map (enc_sized ctx) ?inr)"
    using st e2(1) by simp
  then show ?case using e1 e2(2) by (simp add: Let_def)
next
  case (RecordDelta opr h nx itm)
  show ?case
  proof (cases "cmp ctx itm (hiItm (hdr_of (head pg))) < 0")
    case True
    then obtain o1 o2 where o1: "put16 cap out (recordOp_code opr) = Inr o1"
      and o2: "put_sized ctx cap o1 itm = Inr o2"
      and r: "marshal_chain ctx pg cap o2 nx = Inr out'"
      using RecordDelta.prems by (auto simp: InRange_head bindE_eq_Inr)
    have "o2 = out @ be16 (recordOp_code opr) @ enc_sized ctx itm"
      using put16_Inr [OF o1] put_sized_Inr [OF o2] by simp
    then show ?thesis using RecordDelta.IH [OF RecordDelta.prems(1) r] True by simp
  next
    case False
    then have "marshal_chain ctx pg cap out nx = Inr out'"
      using RecordDelta.prems by (simp add: InRange_head)
    then show ?thesis using RecordDelta.IH [OF RecordDelta.prems(1)] False by simp
  qed
next
  case (SplitPageDelta h nx x)
  then show ?case by simp
next
  case (MergePageDelta h nx x sib)
  then show ?case by simp
next
  case (FlushPageDelta h nx off)
  then show ?case by (auto simp: bindE_eq_Inr dest!: put16_Inr put64_Inr)
next
  case (RemovePageDelta h nx)
  then show ?case by simp
qed

lemma Marshal_enc_page:
  assumes "head pg \<noteq> NilDelta" and "Marshal ctx pg cap = Inr bs"
  shows "bs = enc_page ctx pg"
proof -
  let ?h = "hdr_of (head pg)"
  obtain o1 o2 o3 o4 where o: "put16 cap [] (chainLen ?h) = Inr o1"
    "put16 cap o1 (numItems ?h) = Inr o2"
    "put_bound ctx cap o2 (hiItm ?h) = Inr o3"
    "put_bound ctx cap o3 (getItem ctx (rightSibling ?h)) = Inr o4"
    "marshal_chain ctx pg cap o4 (head pg) = Inr bs"
    using assms by (auto simp: Marshal_def bindE_eq_Inr)
  have "o4 = be16 (chainLen ?h) @ be16 (numItems ?h) @ enc_bound ctx (hiItm ?h) @
             enc_bound ctx (getItem ctx (rightSibling ?h))"
    using put16_Inr [OF o(1)] put16_Inr [OF o(2)] put_bound_Inr [OF o(3)] put_bound_Inr [OF o(4)]
    by simp
  then show ?thesis
    using marshal_chain_Inr [OF assms(1) o(5)] by (simp add: enc_page_def Let_def)
qed

lemma length_enc_sized: "readable ctx itm \<Longrightarrow> length (enc_sized ctx itm) = 2 + itemSize ctx itm"
  by (cases itm) (simp_all add: readable_def enc_sized_def)

lemma put16_ok: "length out + 2 \<le> cap \<Longrightarrow> put16 cap out v = Inr (out @ be16 v)"
  by (simp add: put16_def)

lemma put_sized_ok:
  assumes "readable ctx itm" and "length out + length (enc_sized ctx itm) < cap"
  shows "put_sized ctx cap out itm = Inr (out @ enc_sized ctx itm)"
proof -
  let ?l = "itemSize ctx itm"
  have b: "length out + 2 + ?l < cap" using assms by (simp add: length_enc_sized)
  have m: "memread itm ?l = Inr (take ?l (case itm of Item b \<Rightarrow> b | _ \<Rightarrow> []))"
    using assms(1) by (cases itm) (simp_all add: readable_def)
  show ?thesis
    using b m by (simp add: put_sized_def Let_def put16_def put_item_def enc_sized_def)
qed

lemma put_bound_ok:
  assumes "p \<noteq> MaxItem \<longrightarrow> readable ctx p" and "length out + length (enc_bound ctx p) < cap"
  shows "put_bound ctx cap out p = Inr (out @ enc_bound ctx p)"
  using assms by (auto simp: put_bound_def enc_bound_def put16_def put_sized_ok)

lemma marshal_items_ok:
  "head pg \<noteq> NilDelta \<Longrightarrow> \<forall>p\<in>set its. readable ctx p \<Longrightarrow>
   length out + length (concat (map (enc_sized ctx)
       (filter (\<lambda>itm. cmp ctx itm (hiItm (hdr_of (head pg))) < 0) its))) < cap \<Longrightarrow>
   marshal_items ctx pg cap out its n =
     Inr (out @ concat (map (enc_sized ctx) (filter (\<lambda>itm. cmp ctx itm (hiItm (hdr_of (head pg))) < 0) its)),
          n + length (filter (\<lambda>itm. cmp ctx itm (hiItm (hdr_of (head pg))) < 0) its))"
proof (induction its arbitrary: out n)
  case Nil
  then show ?case by simp
next
  case (Cons itm its)
  show ?case
  proof (cases "cmp ctx itm (hiItm (hdr_of (head pg))) < 0")
    case True
    have "put_sized ctx cap out itm = Inr (out @ enc_sized ctx itm)"
      using Cons.prems True by (intro put_sized_ok) simp_all
    moreover have "marshal_items ctx pg cap (out @ enc_sized ctx itm) its (n + 1) =
       Inr ((out @ enc_sized ctx itm) @ concat (map (enc_sized ctx) (filter (\<lambda>itm. cmp ctx itm (hiItm (hdr_of (head pg))) < 0) its)),
          (n + 1) + length (filter (\<lambda>itm. cmp ctx itm (hiItm (hdr_of (head pg))) < 0) its))"
      using Cons.prems True by (intro Cons.IH) simp_all
    ultimately show ?thesis using True Cons.prems(1) by (simp add: InRange_head)
  next
    case False
    then show ?thesis using Cons.IH [of out n] Cons.prems by (simp add: InRange_head)
  qed
qed

lemma marshal_chain_ok:
  "head pg \<noteq> NilDelta \<Longrightarrow> \<forall>p\<in>set (chain_items pd). readable ctx p \<Longrightarrow>
   length out + length (enc_deltas ctx (hiItm (hdr_of (head pg))) pd) < cap \<Longrightarrow>
   marshal_chain ctx pg cap out pd = Inr (out @ enc_deltas ctx (hiItm (hdr_of (head pg))) pd)"
proof (induction pd arbitrary: out)
  case NilDelta
  then show ?case by simp
next
  case (BasePage h its)
  let ?hi = "hiItm (hdr_of (head pg))"
  let ?inr = "filter (\<lambda>itm. cmp ctx itm ?hi < 0) its"
  let ?o1 = "out @ be16 opBasePage_code"
  have len: "length out + 4 + length (concat (map (enc_sized ctx) ?inr)) < cap"
    using BasePage.prems(3) by (simp add: Let_def)
  have p1: "put16 cap out opBasePage_code = Inr ?o1" using len by (simp add: put16_def)
  have p2: "marshal_items ctx pg cap (?o1 @ [0, 0]) its 0 =
     Inr ((?o1 @ [0, 0]) @ concat (map (enc_sized ctx) ?inr), 0 + length ?inr)"
    using BasePage.prems(1,2) len by (intro marshal_items_ok) simp_all
  have p3: "store (?o1 @ ([0, 0] @ concat (map (enc_sized ctx) ?inr))) (length ?o1) (be16 (of_nat (length ?inr))) =
        Inr (?o1 @ be16 (of_nat (length ?inr)) @
             drop (length (be16 (of_nat (length ?inr)) :: byte list)) ([0, 0] @ concat (map (enc_sized ctx) ?inr)))"
    by (rule store_append) simp_all
  have c: "\<not> cap < length ?o1 + 2" using len by simp
  have "marshal_chain ctx pg cap out (BasePage h its) =
        store ((?o1 @ [0, 0]) @ concat (map (enc_sized ctx) ?inr)) (length ?o1) (be16 (of_nat (0 + length ?inr)))"
    by (simp only: marshal_chain.simps p1 bindE_Inr Let_def c if_False p2 prod.case)
  then show ?case using p3 by (simp add: Let_def)
next
  case (RecordDelta opr h nx itm)
  show ?case
  proof (cases "cmp ctx itm (hiItm (hdr_of (head pg))) < 0")
    case True
    let ?o1 = "out @ be16 (recordOp_code opr)"
    have len: "length ?o1 + length (enc_sized ctx itm) +
               length (enc_deltas ctx (hiItm (hdr_of (head pg))) nx) < cap"
      using RecordDelta.prems(3) True by simp
    have p1: "put16 cap out (recordOp_code opr) = Inr ?o1" using len by (simp add: put16_def)
    have p2: "put_sized ctx cap ?o1 itm = Inr (?o1 @ enc_sized ctx itm)"
      using RecordDelta.prems(2) len by (intro put_sized_ok) simp_all
    have p3: "marshal_chain ctx pg cap (?o1 @ enc_sized ctx itm) nx =
              Inr ((?o1 @ enc_sized ctx itm) @ enc_deltas ctx (hiItm (hdr_of (head pg))) nx)"
      using RecordDelta.prems(1,2) len by (intro RecordDelta.IH) simp_all
    have "InRange ctx pg itm" using True RecordDelta.prems(1) by (simp add: InRange_head)
    then have "marshal_chain ctx pg cap out (RecordDelta opr h nx itm) =
               Inr ((?o1 @ enc_sized ctx itm) @ enc_deltas ctx (hiItm (hdr_of (head pg))) nx)"
      by (simp only: marshal_chain.simps if_True p1 p2 p3 bindE_Inr)
    then show ?thesis using True by simp
  next
    case False
    then show ?thesis using RecordDelta.IH [of out] RecordDelta.prems by (simp add: InRange_head)
  qed
next
  case (SplitPageDelta h nx x)
  then show ?case by simp
next
  case (MergePageDelta h nx x sib)
  then show ?case by simp
next
  case (FlushPageDelta h nx off)
  then show ?case by (simp add: put16_def put64_def)
next
  case (RemovePageDelta h nx)
  then show ?case by simp
qed

lemma Marshal_ok:
  assumes "head pg \<noteq> NilDelta" and "\<forall>p\<in>set (marshalled_items ctx pg). readable ctx p"
    and "length (enc_page ctx pg) < cap"
  shows "Marshal ctx pg cap = Inr (enc_page ctx pg)"
proof -
  let ?h = "hdr_of (head pg)"
  let ?nk = "getItem ctx (rightSibling ?h)"
  let ?o2 = "be16 (chainLen ?h) @ be16 (numItems ?h)"
  let ?o3 = "?o2 @ enc_bound ctx (hiItm ?h)"
  let ?o4 = "?o3 @ enc_bound ctx ?nk"
  have len: "length ?o4 + length (enc_deltas ctx (hiItm ?h) (head pg)) < cap"
    using assms(3) by (simp add: enc_page_def Let_def)
  have r1: "hiItm ?h \<noteq> MaxItem \<longrightarrow> readable ctx (hiItm ?h)"
    and r2: "?nk \<noteq> MaxItem \<longrightarrow> readable ctx ?nk"
    and r3: "\<forall>p\<in>set (chain_items (head pg)). readable ctx p"
    using assms(2) by (auto simp: marshalled_items_def)
  have p1: "put16 cap [] (chainLen ?h) = Inr (be16 (chainLen ?h))" using len by (simp add: put16_def)
  have p2: "put16 cap (be16 (chainLen ?h)) (numItems ?h) = Inr ?o2" using len by (simp add: put16_def)
  have p3: "put_bound ctx cap ?o2 (hiItm ?h) = Inr ?o3"
    using r1 len by (intro put_bound_ok) simp_all
  have p4: "put_bound ctx cap ?o3 ?nk = Inr ?o4"
    using r2 len by (intro put_bound_ok) simp_all
  have p5: "marshal_chain ctx pg cap ?o4 (head pg) = Inr (?o4 @ enc_deltas ctx (hiItm ?h) (head pg))"
    using assms(1) r3 len by (intro marshal_chain_ok) simp_all
  show ?thesis
    unfolding Marshal_def using assms(1)
    by (simp only: p1 p2 p3 p4 p5 bindE_Inr if_False) (simp add: enc_page_def Let_def)
qed
lemma page2_eq: "page2 = \<lparr>low = Item [1, 7], prevHeadPtr = None, head =
   RecordDelta opDeleteDelta \<lparr>chainLen = 2, numItems = 2, hiItm = Item [1, 9], rightSibling = Some 1\<rparr>
    (RecordDelta opInsertDelta \<lparr>chainLen = 1, numItems = 2, hiItm = Item [1, 9], rightSibling = Some 1\<rparr>
      base1 (Item [1, 10])) (Item [1, 8])\<rparr>"
  by (simp add: page2_def Delete_def Insert_def newRecordDelta_def page1_def base1_def Let_def)

lemma cmp0_vals:
  "cmp ctx0 (Item [1, 8]) (Item [1, 9]) = - 1" "cmp ctx0 (Item [1, 10]) (Item [1, 9]) = 1"
  "cmp ctx0 (Item [1, 7]) (Item [1, 9]) = - 1"
  by (simp_all add: ctx0_def)

lemma enc_page2:
  "enc_page ctx0 page2 =
     [0, 2, 0, 2, 0, 2, 1, 9, 0, 2, 1, 9, 0, 2, 0, 2, 1, 8, 0, 0, 0, 2, 0, 2, 1, 7, 0, 2, 1, 8]"
  apply (simp add: page2_eq enc_page_def Let_def base1_def cmp0_vals)
  apply (simp add: enc_bound_def enc_sized_def ctx0_def be16_def opBasePage_code_def)
  done



section \<open>Properties of the snapshot filter\<close>


lemma Process_filters: "filters (snd (snFilter_Process f x)) = filters f"
  by (simp add: snFilter_Process_def)

lemma run_rolled_back:
  "inRollback (filters f) (itmSn x) \<Longrightarrow> snFilter_run f (x # xs) = snFilter_run f xs"
  by (simp add: snFilter_Process_def rollbackFilter_Process_def)

lemma run_live: "snFilter_run f xs = snFilter_run f (live f xs)"
proof (induction xs arbitrary: f)
  case Nil
  show ?case by (simp add: live_def)
next
  case (Cons x xs)
  show ?case
  proof (cases "inRollback (filters f) (itmSn x)")
    case True
    have "snFilter_run f (x # xs) = snFilter_run f xs" by (rule run_rolled_back [OF True])
    moreover have "live f (x # xs) = live f xs" using True by (simp add: live_def)
    ultimately show ?thesis using Cons [of f] by simp
  next
    case False
    obtain out f' where p: "snFilter_Process f x = (out, f')" by (cases "snFilter_Process f x")
    then have "filters f' = filters f" using Process_filters [of f x] by simp
    then have "live f' xs = live f xs" by (simp add: live_def)
    then show ?thesis using Cons [of f'] p False by (simp add: live_def)
  qed
qed

lemma run_latched:
  "alternating ys \<Longrightarrow> \<forall>y\<in>set ys. \<not> inRollback (filters f) (itmSn y) \<and> itmSn y \<le> sn f \<Longrightarrow>
   (skip f \<and> (ys = [] \<or> isInsert (hd ys))) \<or> (\<not> skip f \<and> (ys = [] \<or> \<not> isInsert (hd ys))) \<Longrightarrow>
   snFilter_run f ys = []"
proof (induction ys arbitrary: f)
  case Nil
  show ?case by simp
next
  case (Cons y ys)
  have alt: "alternating ys" using Cons.prems(1) by (cases ys) simp_all
  have hd: "ys = [] \<or> isInsert (hd ys) \<noteq> isInsert y" using Cons.prems(1) by (cases ys) auto
  have q: "\<not> inRollback (filters f) (itmSn y)" "\<not> sn f < itmSn y" using Cons.prems(2) by auto
  show ?case
  proof (cases "skip f")
    case True
    then have "isInsert y" using Cons.prems(3) by simp
    then have "snFilter_run (f\<lparr>skip := False\<rparr>) ys = []"
      using hd alt Cons.prems(2) by (intro Cons.IH) auto
    then show ?thesis using True q by (simp add: snFilter_Process_def rollbackFilter_Process_def)
  next
    case False
    then have d: "\<not> isInsert y" using Cons.prems(3) by simp
    then have "snFilter_run (f\<lparr>skip := True\<rparr>) ys = []"
      using hd alt Cons.prems(2) by (intro Cons.IH) auto
    then show ?thesis using False d q by (simp add: snFilter_Process_def rollbackFilter_Process_def)
  qed
qed

lemma newestFirst_tail: "newestFirst (x # ys) \<Longrightarrow> newestFirst ys \<and> (\<forall>y\<in>set ys. itmSn y \<le> itmSn x)"
proof (induction ys arbitrary: x)
  case Nil
  show ?case by simp
next
  case (Cons y ys)
  then show ?case by fastforce
qed

lemma run_newest:
  "\<not> skip f \<Longrightarrow> alternating ys \<Longrightarrow> newestFirst ys \<Longrightarrow>
   \<forall>y\<in>set ys. \<not> inRollback (filters f) (itmSn y) \<Longrightarrow>
   snFilter_run f ys =
     (case find (\<lambda>x. itmSn x \<le> sn f) ys of None \<Rightarrow> [] | Some x \<Rightarrow> if isInsert x then [x] else [])"
proof (induction ys)
  case Nil
  show ?case by simp
next
  case (Cons y ys)
  have alt: "alternating ys" using Cons.prems(2) by (cases ys) simp_all
  have hd: "ys = [] \<or> isInsert (hd ys) \<noteq> isInsert y" using Cons.prems(2) by (cases ys) auto
  have nf: "newestFirst ys" "\<forall>z\<in>set ys. itmSn z \<le> itmSn y"
    using newestFirst_tail [OF Cons.prems(3)] by auto
  have lv: "\<not> inRollback (filters f) (itmSn y)" using Cons.prems(4) by simp
  show ?case
  proof (cases "itmSn y \<le> sn f")
    case False
    have "f\<lparr>skip := False\<rparr> = f" using Cons.prems(1) by simp
    moreover have "sn f < itmSn y" using False by (simp add: not_le)
    ultimately show ?thesis using False lv Cons.IH [OF Cons.prems(1) alt nf(1)] Cons.prems(4)
      by (simp add: snFilter_Process_def rollbackFilter_Process_def)
  next
    case True
    have all: "\<forall>z\<in>set ys. \<not> inRollback (filters f) (itmSn z) \<and> itmSn z \<le> sn f"
      using nf(2) True Cons.prems(4) by auto
    have nlt: "\<not> sn f < itmSn y" using True by (simp add: not_less)
    show ?thesis
    proof (cases "isInsert y")
      case ins: True
      have "snFilter_run f ys = []"
        using hd ins Cons.prems(1) by (intro run_latched [OF alt all]) auto
      then show ?thesis using True nlt ins lv Cons.prems(1)
        by (simp add: snFilter_Process_def rollbackFilter_Process_def)
    next
      case del: False
      have "snFilter_run (f\<lparr>skip := True\<rparr>) ys = []"
        using hd del all by (intro run_latched [OF alt]) auto
      then show ?thesis using True nlt del lv Cons.prems(1)
        by (simp add: snFilter_Process_def rollbackFilter_Process_def)
    qed
  qed
qed

lemma Process_rolled_back:
  "inRollback (filters g) (itmSn x) \<Longrightarrow> snFilter_Process g x = ([], g)"
  by (simp add: snFilter_Process_def rollbackFilter_Process_def)

lemma Process_sets_latch:
  "\<not> inRollback (filters g) (itmSn d) \<Longrightarrow> \<not> skip g \<Longrightarrow> itmSn d \<le> sn g \<Longrightarrow> \<not> isInsert d \<Longrightarrow>
   snFilter_Process g d = ([], g\<lparr>skip := True\<rparr>)"
  by (simp add: snFilter_Process_def rollbackFilter_Process_def not_less)

lemma Process_latched:
  "\<not> inRollback (filters g) (itmSn y) \<Longrightarrow> skip g \<Longrightarrow>
   snFilter_Process g y = ([], g\<lparr>skip := False\<rparr>)"
  by (simp add: snFilter_Process_def rollbackFilter_Process_def)

lemma run_after_delete:
  assumes "\<not> inRollback (filters g) (itmSn d)" and "\<not> skip g" and "itmSn d \<le> sn g"
    and "\<not> isInsert d" and "\<not> inRollback (filters g) (itmSn y)"
  shows "snFilter_run g (d # y # zs) = snFilter_run g zs"
proof -
  have "snFilter_Process (g\<lparr>skip := True\<rparr>) y = ([], g\<lparr>skip := True\<rparr>\<lparr>skip := False\<rparr>)"
    using assms(5) by (intro Process_latched) simp_all
  moreover have "g\<lparr>skip := True\<rparr>\<lparr>skip := False\<rparr> = g" using assms(2) by simp
  ultimately show ?thesis using Process_sets_latch [OF assms(1-4)] by simp
qed

lemma Process_key:
  "snFilter_Process h (x\<lparr>key := k\<rparr>) =
     (map (\<lambda>y. y\<lparr>key := k\<rparr>) (fst (snFilter_Process h x)), snd (snFilter_Process h x))"
  by (simp add: snFilter_Process_def rollbackFilter_Process_def)

lemma run_key:
  "snFilter_run h (map (\<lambda>x. x\<lparr>key := kf x\<rparr>) ys) = map (\<lambda>x. x\<lparr>key := kf x\<rparr>) (snFilter_run h ys)"
proof (induction ys arbitrary: h)
  case Nil
  show ?case by simp
next
  case (Cons y ys)
  obtain out h' where p: "snFilter_Process h y = (out, h')" by (cases "snFilter_Process h y")
  have o: "out = [] \<or> out = [y]"
    using p by (auto simp: snFilter_Process_def rollbackFilter_Process_def split: if_splits)
  have "snFilter_Process h (y\<lparr>key := kf y\<rparr>) = (map (\<lambda>z. z\<lparr>key := kf y\<rparr>) out, h')"
    using Process_key [where h = h and x = y and k = "kf y"] p by simp
  moreover have "map (\<lambda>z. z\<lparr>key := kf y\<rparr>) out = map (\<lambda>x. x\<lparr>key := kf x\<rparr>) out" using o by auto
  ultimately show ?case using p Cons.IH [of h'] by simp
qed

text \<open>
  Claim C1, as the code has it. Where the versions that survive the rollback filter arrive
  newest first and inserts alternate with deletes (every delete is directly followed by
  the insert it removed), a fresh filter emits the newest version with \<open>itmSn \<le> sn\<close>
  when that version is an insert, and nothing at all when it is a delete.

  The latch works on single items. A delete with \<open>itmSn \<le> sn\<close> that survives the rollback
  filter is dropped and sets the latch. While the latch is set, the next item that
  survives the rollback filter is dropped, whatever its key, flag and sequence number, and
  resets the latch; so after such a delete and one more item the filter goes on as it was
  before the two. An item inside a rollback interval is dropped and leaves the latch as it
  is. Keys are never read: giving the items other keys changes the keys of the output
  and nothing else.
\<close>

theorem snFilter_keeps_newest_qualifying:
  "(\<not> skip f \<and> alternating (live f xs) \<and> newestFirst (live f xs) \<longrightarrow>
      snFilter_run f xs =
        (case find (\<lambda>x. itmSn x \<le> sn f) (live f xs) of
           None \<Rightarrow> []
         | Some x \<Rightarrow> if isInsert x then [x] else [])) \<and>
   (\<not> inRollback (filters g) (itmSn d) \<and> \<not> skip g \<and> itmSn d \<le> sn g \<and> \<not> isInsert d \<longrightarrow>
      snFilter_Process g d = ([], g\<lparr>skip := True\<rparr>)) \<and>
   (\<not> inRollback (filters g') (itmSn y) \<and> skip g' \<longrightarrow>
      snFilter_Process g' y = ([], g'\<lparr>skip := False\<rparr>)) \<and>
   (\<not> inRollback (filters g) (itmSn d) \<and> \<not> skip g \<and> itmSn d \<le> sn g \<and> \<not> isInsert d \<and>
    \<not> inRollback (filters g) (itmSn y) \<longrightarrow>
      snFilter_run g (d # y # zs) = snFilter_run g zs) \<and>
   (inRollback (filters g) (itmSn r) \<longrightarrow> snFilter_Process g r = ([], g)) \<and>
   snFilter_run h (map (\<lambda>x. x\<lparr>key := kf x\<rparr>) ys) =
     map (\<lambda>x. x\<lparr>key := kf x\<rparr>) (snFilter_run h ys)"
proof -
  have main: "\<not> skip f \<and> alternating (live f xs) \<and> newestFirst (live f xs) \<longrightarrow>
      snFilter_run f xs =
        (case find (\<lambda>x. itmSn x \<le> sn f) (live f xs) of
           None \<Rightarrow> []
         | Some x \<Rightarrow> if isInsert x then [x] else [])"
  proof
    assume a: "\<not> skip f \<and> alternating (live f xs) \<and> newestFirst (live f xs)"
    have "\<forall>y\<in>set (live f xs). \<not> inRollback (filters f) (itmSn y)" by (simp add: live_def)
    then have "snFilter_run f (live f xs) =
       (case find (\<lambda>x. itmSn x \<le> sn f) (live f xs) of
          None \<Rightarrow> []
        | Some x \<Rightarrow> if isInsert x then [x] else [])"
      using a by (intro run_newest) simp_all
    then show "snFilter_run f xs =
        (case find (\<lambda>x. itmSn x \<le> sn f) (live f xs) of
           None \<Rightarrow> []
         | Some x \<Rightarrow> if isInsert x then [x] else [])"
      using run_live [of f xs] by simp
  qed
  show ?thesis
    using main Process_sets_latch [of g d] Process_latched [of g' y]
      run_after_delete [of g d y zs] Process_rolled_back [of g r] run_key [of h kf ys]
    by blast
qed

theorem snFilter_keeps_newest_qualifying_witness:
  "snFilter_run \<lparr>sn = 8, skip = False, filters = [\<lparr>rb_start = 9, rb_end = 9\<rparr>]\<rparr>
     [mkItem 1 9 False, mkItem 1 7 True, mkItem 1 5 False, mkItem 1 3 True] = [mkItem 1 7 True] \<and>
   snFilter_Process \<lparr>sn = 5, skip = False, filters = [\<lparr>rb_start = 9, rb_end = 9\<rparr>]\<rparr> (mkItem 1 3 False) =
     ([], \<lparr>sn = 5, skip = True, filters = [\<lparr>rb_start = 9, rb_end = 9\<rparr>]\<rparr>) \<and>
   snFilter_Process \<lparr>sn = 5, skip = True, filters = [\<lparr>rb_start = 9, rb_end = 9\<rparr>]\<rparr> (mkItem 2 2 True) =
     ([], \<lparr>sn = 5, skip = False, filters = [\<lparr>rb_start = 9, rb_end = 9\<rparr>]\<rparr>) \<and>
   snFilter_run \<lparr>sn = 5, skip = False, filters = [\<lparr>rb_start = 9, rb_end = 9\<rparr>]\<rparr>
     [mkItem 1 3 False, mkItem 2 2 True, mkItem 2 1 True] =
   snFilter_run \<lparr>sn = 5, skip = False, filters = [\<lparr>rb_start = 9, rb_end = 9\<rparr>]\<rparr> [mkItem 2 1 True] \<and>
   snFilter_Process \<lparr>sn = 5, skip = False, filters = [\<lparr>rb_start = 9, rb_end = 9\<rparr>]\<rparr> (mkItem 1 9 True) =
     ([], \<lparr>sn = 5, skip = False, filters = [\<lparr>rb_start = 9, rb_end = 9\<rparr>]\<rparr>) \<and>
   snFilter_run \<lparr>sn = 5, skip = False, filters = []\<rparr>
     (map (\<lambda>x. x\<lparr>key := [7]\<rparr>) [mkItem 1 3 True, mkItem 2 2 True]) =
   map (\<lambda>x. x\<lparr>key := [7]\<rparr>)
     (snFilter_run \<lparr>sn = 5, skip = False, filters = []\<rparr> [mkItem 1 3 True, mkItem 2 2 True])"
  using snFilter_keeps_newest_qualifying
    [where f = "\<lparr>sn = 8, skip = False, filters = [\<lparr>rb_start = 9, rb_end = 9\<rparr>]\<rparr>"
       and xs = "[mkItem 1 9 False, mkItem 1 7 True, mkItem 1 5 False, mkItem 1 3 True]"
       and g = "\<lparr>sn = 5, skip = False, filters = [\<lparr>rb_start = 9, rb_end = 9\<rparr>]\<rparr>"
       and d = "mkItem 1 3 False"
       and g' = "\<lparr>sn = 5, skip = True, filters = [\<lparr>rb_start = 9, rb_end = 9\<rparr>]\<rparr>"
       and y = "mkItem 2 2 True"
       and zs = "[mkItem 2 1 True]"
       and r = "mkItem 1 9 True"
       and h = "\<lparr>sn = 5, skip = False, filters = []\<rparr>"
       and kf = "\<lambda>x. [7]"
       and ys = "[mkItem 1 3 True, mkItem 2 2 True]"]
  by (simp add: live_def mkItem_def)

text \<open>
  The claim as stated fails: with snapshot 5 and the versions delete@3, insert@2, insert@1
  of one key, the newest qualifying version is a delete, yet insert@1 is emitted. The latch
  was reset by insert@2.
\<close>

theorem snFilter_latch_counterexample:
  "snFilter_run \<lparr>sn = 5, skip = False, filters = []\<rparr>
     [mkItem 1 3 False, mkItem 1 2 True, mkItem 1 1 True] = [mkItem 1 1 True]"
  by (simp add: snFilter_Process_def rollbackFilter_Process_def mkItem_def)

section \<open>The recovery-point block\<close>

lemma length_rp_record [simp]: "length (rp_record rp) = 20 + length (rp_meta rp)"
  by (simp add: rp_record_def)

lemma marshalRPs_loop_ok:
  "length pre = offset \<Longrightarrow>
   length zs = sum_list (map (\<lambda>rp. 4 + 8 + 8 + length (rp_meta rp)) rps) \<Longrightarrow>
   marshalRPs_loop (pre @ zs) offset rps = Inr (pre @ concat (map rp_record rps))"
proof (induction rps arbitrary: pre zs offset)
  case Nil
  then show ?case by simp
next
  case (Cons rp rps)
  let ?m = "rp_meta rp"
  let ?l = "of_nat (4 + 8 + 8 + length ?m) :: uint32"
  have len: "length zs = 20 + length ?m + sum_list (map (\<lambda>rp. 4 + 8 + 8 + length (rp_meta rp)) rps)"
    using Cons.prems(2) by simp
  have s1: "PutUint32 (pre @ zs) offset ?l = Inr (pre @ be32 ?l @ drop 4 zs)"
    unfolding PutUint32_def using store_append [OF Cons.prems(1), of "be32 ?l" zs] len by simp
  have s2: "PutUint64 (pre @ be32 ?l @ drop 4 zs) (offset + 4) (rp_sn rp) =
            Inr ((pre @ be32 ?l) @ be64 (rp_sn rp) @ drop 12 zs)"
    unfolding PutUint64_def
    using store_append [of "pre @ be32 ?l" "offset + 4" "be64 (rp_sn rp)" "drop 4 zs"] Cons.prems(1) len
    by simp
  have s3: "PutUint64 ((pre @ be32 ?l) @ be64 (rp_sn rp) @ drop 12 zs) (offset + 4 + 8) (rp_count rp) =
            Inr ((pre @ be32 ?l @ be64 (rp_sn rp)) @ be64 (rp_count rp) @ drop 20 zs)"
    unfolding PutUint64_def
    using store_append [of "pre @ be32 ?l @ be64 (rp_sn rp)" "offset + 4 + 8" "be64 (rp_count rp)" "drop 12 zs"]
      Cons.prems(1) len
    by simp
  have s4: "copy_at ((pre @ be32 ?l @ be64 (rp_sn rp)) @ be64 (rp_count rp) @ drop 20 zs) (offset + 4 + 8 + 8) ?m =
            Inr ((pre @ rp_record rp) @ drop (20 + length ?m) zs)"
    using copy_at_append [of "pre @ be32 ?l @ be64 (rp_sn rp) @ be64 (rp_count rp)" "offset + 4 + 8 + 8" ?m "drop 20 zs"]
      Cons.prems(1) len
    by (simp add: rp_record_def add.commute)
  have ih: "marshalRPs_loop ((pre @ rp_record rp) @ drop (20 + length ?m) zs)
              (offset + 4 + 8 + 8 + length ?m) rps =
            Inr ((pre @ rp_record rp) @ concat (map rp_record rps))"
    using Cons.prems(1) len by (intro Cons.IH) simp_all
  show ?case
    by (simp only: marshalRPs_loop.simps s1 s2 s3 s4 ih bindE_Inr) simp
qed

lemma marshalRPs_block: "marshalRPs rps version = Inr (rp_block rps version)"
proof -
  let ?l = "sum_list (map (\<lambda>rp. 4 + 8 + 8 + length (rp_meta rp)) rps)"
  have h1: "PutUint16 (replicate (2 + 2 + ?l) 0) 0 version = Inr (be16 version @ replicate (2 + ?l) 0)"
    unfolding PutUint16_def
    using store_append [of "[]" 0 "be16 version" "replicate (2 + 2 + ?l) 0"] by simp
  have h2: "PutUint16 (be16 version @ replicate (2 + ?l) 0) 2 (of_nat (length rps)) =
            Inr ((be16 version @ be16 (of_nat (length rps))) @ replicate ?l 0)"
    unfolding PutUint16_def
    using store_append [of "be16 version" 2 "be16 (of_nat (length rps))" "replicate (2 + ?l) 0"] by simp
  have h3: "marshalRPs_loop ((be16 version @ be16 (of_nat (length rps))) @ replicate ?l 0) 4 rps =
            Inr ((be16 version @ be16 (of_nat (length rps))) @ concat (map rp_record rps))"
    by (rule marshalRPs_loop_ok) simp_all
  show ?thesis
    unfolding marshalRPs_def Let_def
    by (simp only: h1 h2 h3 bindE_Inr) (simp add: rp_block_def)
qed

lemma unmarshalRPs_loop_ok:
  "\<forall>rp\<in>set rps. length (rp_meta rp) < 2 ^ 32 - 20 \<Longrightarrow>
   unmarshalRPs_loop (pre @ concat (map rp_record rps) @ post) (length pre) (length rps) = Inr rps"
proof (induction rps arbitrary: pre)
  case Nil
  show ?case by simp
next
  case (Cons rp rps)
  define m where "m = rp_meta rp"
  define l :: uint32 where "l = of_nat (20 + length m)"
  define rest where "rest = concat (map rp_record rps) @ post"
  define bs where "bs = pre @ concat (map rp_record (rp # rps)) @ post"
  have rec: "rp_record rp = be32 l @ be64 (rp_sn rp) @ be64 (rp_count rp) @ m"
    by (simp add: rp_record_def l_def m_def)
  have bs: "bs = pre @ be32 l @ be64 (rp_sn rp) @ be64 (rp_count rp) @ m @ rest"
    unfolding bs_def rest_def by (simp add: rec)
  have "20 + length m < 2 ^ 32" using Cons.prems by (simp add: m_def)
  then have ul: "unat l = 20 + length m"
    unfolding l_def by (simp only: unat_of_nat) simp
  have r1: "slice bs (length pre) (length pre + 4) = Inr (be32 l)"
    by (rule slice_middle [where a = pre and b = "be64 (rp_sn rp) @ be64 (rp_count rp) @ m @ rest"])
       (simp_all add: bs)
  have r2: "slice bs (length pre + 4) (length pre + 4 + 8) = Inr (be64 (rp_sn rp))"
    by (rule slice_middle [where a = "pre @ be32 l" and b = "be64 (rp_count rp) @ m @ rest"])
       (simp_all add: bs)
  have r3: "slice bs (length pre + 4 + 8) (length pre + 4 + 8 + 8) = Inr (be64 (rp_count rp))"
    by (rule slice_middle [where a = "pre @ be32 l @ be64 (rp_sn rp)" and b = "m @ rest"])
       (simp_all add: bs)
  have r4: "slice bs (length pre + 4 + 8 + 8) (length pre + unat l) = Inr m"
    by (rule slice_middle [where a = "pre @ be32 l @ be64 (rp_sn rp) @ be64 (rp_count rp)" and b = rest])
       (simp_all add: bs ul)
  have "unmarshalRPs_loop ((pre @ rp_record rp) @ concat (map rp_record rps) @ post)
          (length (pre @ rp_record rp)) (length rps) = Inr rps"
    using Cons.prems by (intro Cons.IH) simp
  moreover have "(pre @ rp_record rp) @ concat (map rp_record rps) @ post = bs"
    by (simp add: bs_def)
  moreover have "length (pre @ rp_record rp) = length pre + unat l"
    by (simp add: rec ul)
  ultimately have ih: "unmarshalRPs_loop bs (length pre + unat l) (length rps) = Inr rps"
    by simp
  have "unmarshalRPs_loop bs (length pre) (Suc (length rps)) = Inr (rp # rps)"
    unfolding unmarshalRPs_loop.simps Let_def
    by (simp only: r1 r2 r3 r4 ih bindE_Inr Uint32_be32 Uint64_be64) (simp add: m_def)
  then show ?case by (simp add: bs_def)
qed

lemma unmarshalRPs_block:
  assumes "length rps < 65536" and "\<forall>rp\<in>set rps. length (rp_meta rp) < 2 ^ 32 - 20"
  shows "unmarshalRPs (rp_block rps version) = Inr (version, rps)"
proof -
  let ?n = "of_nat (length rps) :: uint16"
  let ?bs = "rp_block rps version"
  have un: "unat ?n = length rps" using assms(1) by (simp add: unat_of_nat)
  have r1: "slice ?bs 0 2 = Inr (be16 version)"
    by (rule slice_middle [where a = "[]" and b = "be16 ?n @ concat (map rp_record rps)"])
       (simp_all add: rp_block_def)
  have r2: "slice ?bs 2 4 = Inr (be16 ?n)"
    by (rule slice_middle [where a = "be16 version" and b = "concat (map rp_record rps)"])
       (simp_all add: rp_block_def)
  have "unmarshalRPs_loop ((be16 version @ be16 ?n) @ concat (map rp_record rps) @ [])
          (length (be16 version @ be16 ?n)) (length rps) = Inr rps"
    by (rule unmarshalRPs_loop_ok [OF assms(2)])
  then have r3: "unmarshalRPs_loop ?bs 4 (unat ?n) = Inr rps"
    by (simp add: rp_block_def un)
  show ?thesis
    unfolding unmarshalRPs_def
    by (simp only: r1 r2 r3 bindE_Inr Uint16_be16)
qed

lemma unmarshalRPs_zero:
  "unmarshalRPs (be16 version @ be16 0 @ rest) = Inr (version, [])"
proof -
  let ?bs = "be16 version @ be16 0 @ rest"
  have r1: "slice ?bs 0 2 = Inr (be16 version)"
    by (rule slice_middle [where a = "[]" and b = "be16 0 @ rest"]) simp_all
  have r2: "slice ?bs 2 4 = Inr (be16 0)"
    by (rule slice_middle [where a = "be16 version" and b = rest]) simp_all
  show ?thesis
    unfolding unmarshalRPs_def
    by (simp only: r1 r2 bindE_Inr Uint16_be16) simp
qed

text \<open>
  Claim C8, as the code has it. \<open>marshalRPs\<close> never fails and produces the layout
  \<open>[version: u16][n: u16]\<close> followed by one \<open>{len: u32, sn: u64, count: u64, meta}\<close> per
  recovery point, big-endian. The count is stored as \<open>uint16(len(rps))\<close> and each length as
  a \<open>uint32\<close>: for fewer than 65536 recovery points whose metadata are each shorter than
  \<open>2^32 - 20\<close> bytes, \<open>unmarshalRPs\<close> returns the version and the same recovery points.
\<close>

theorem marshalRPs_roundtrip:
  "marshalRPs rps version = Inr (rp_block rps version) \<and>
   (length rps < 65536 \<and> (\<forall>rp\<in>set rps. length (rp_meta rp) < 2 ^ 32 - 20) \<longrightarrow>
    bindE (marshalRPs rps version) unmarshalRPs = Inr (version, rps))"
  by (simp add: marshalRPs_block unmarshalRPs_block)

theorem marshalRPs_roundtrip_witness:
  "marshalRPs [rp0, rp0\<lparr>rp_meta := []\<rparr>] 258 = Inr (rp_block [rp0, rp0\<lparr>rp_meta := []\<rparr>] 258) \<and>
   bindE (marshalRPs [rp0, rp0\<lparr>rp_meta := []\<rparr>] 258) unmarshalRPs =
     Inr (258, [rp0, rp0\<lparr>rp_meta := []\<rparr>])"
proof -
  have "length [rp0, rp0\<lparr>rp_meta := []\<rparr>] < 65536 \<and>
        (\<forall>rp\<in>set [rp0, rp0\<lparr>rp_meta := []\<rparr>]. length (rp_meta rp) < 2 ^ 32 - 20)"
    by (simp add: rp0_def)
  then show ?thesis
    using marshalRPs_roundtrip [of "[rp0, rp0\<lparr>rp_meta := []\<rparr>]" 258] by blast
qed

text \<open>
  With 65536 recovery points the count field wraps to 0 and \<open>unmarshalRPs\<close> returns none of
  them: the round trip of claim C8 does not hold for every list.
\<close>

theorem marshalRPs_count_wraps:
  "bindE (marshalRPs (replicate 65536 rp0) 1) unmarshalRPs = Inr (1, [])"
proof -
  have "(of_nat (length (replicate 65536 rp0)) :: uint16) = 0" by simp
  then have "rp_block (replicate 65536 rp0) 1 = be16 1 @ be16 0 @ concat (map rp_record (replicate 65536 rp0))"
    unfolding rp_block_def by (simp only:)
  then show ?thesis
    by (simp only: marshalRPs_block bindE_Inr unmarshalRPs_zero)
qed


section \<open>Persisting the maximum sequence number\<close>

text \<open>
  Claim C7. With persistence enabled and a sync frequency other than zero (a zero frequency
  makes \<open>numSnCreated % freq\<close> panic), \<open>updateMaxSn\<close> returns, increments
  \<open>numSnCreated\<close>, and appends a finalized \<open>lssMaxSn\<close> block whose payload decodes to
  \<open>sn + MaxSnSyncFrequency + 1\<close> exactly when \<open>numSnCreated\<close> is a multiple of the
  frequency (zero included) or \<open>force\<close> is set; otherwise the log is left as it was.
\<close>

theorem updateMaxSn_frequency:
  assumes "shouldPersist s" and "MaxSnSyncFrequency s \<noteq> 0"
  shows "\<exists>s'. updateMaxSn s n force = Inr s' \<and> numSnCreated s' = numSnCreated s + 1 \<and>
     (if sint (MaxSnSyncFrequency s) dvd sint (numSnCreated s) \<or> force
      then lss_blocks (lss s') = lss_blocks (lss s) @
             [\<lparr>blk_buf = be16 (lssBlockType_code lssMaxSn) @ be64 (n + MaxSnSyncFrequency s + 1),
               blk_finalized = True\<rparr>] \<and>
           decodeMaxSn (drop lssBlockTypeSize (blk_buf (last (lss_blocks (lss s'))))) =
             Inr (n + MaxSnSyncFrequency s + 1) \<and>
           lastMaxSn s' = n + MaxSnSyncFrequency s + 1
      else lss s' = lss s \<and> lastMaxSn s' = lastMaxSn s)"
proof -
  obtain r where g: "go_rem (numSnCreated s) (MaxSnSyncFrequency s) = Inr r"
    using assms(2) by (simp add: go_rem_def)
  note z = go_rem_zero_iff [OF assms(2) g]
  show ?thesis
  proof (cases "r = 0 \<or> force")
    case True
    then have c: "sint (MaxSnSyncFrequency s) dvd sint (numSnCreated s) \<or> force" using z by blast
    obtain s' where s': "updateMaxSn s n force = Inr s'" "numSnCreated s' = numSnCreated s + 1"
      "lss_blocks (lss s') = lss_blocks (lss s) @
        [\<lparr>blk_buf = be16 (lssBlockType_code lssMaxSn) @ be64 (n + MaxSnSyncFrequency s + 1),
          blk_finalized = True\<rparr>]"
      "lastMaxSn s' = n + MaxSnSyncFrequency s + 1"
      using updateMaxSn_write [OF assms(1) g True, of n] by blast
    have "decodeMaxSn (drop lssBlockTypeSize (blk_buf (last (lss_blocks (lss s'))))) =
           Inr (n + MaxSnSyncFrequency s + 1)"
      by (simp add: s'(3) lssBlockTypeSize_def decodeMaxSn_def Uint64_be64)
    then show ?thesis using s' c by simp
  next
    case False
    then have c: "\<not> (sint (MaxSnSyncFrequency s) dvd sint (numSnCreated s) \<or> force)" using z by blast
    show ?thesis using updateMaxSn_skip [OF assms(1) g False, of n] c by simp
  qed
qed

theorem updateMaxSn_frequency_witness:
  "\<exists>s'. updateMaxSn plasma0 2 False = Inr s' \<and> numSnCreated s' = 1 \<and>
     lss_blocks (lss s') = [\<lparr>blk_buf = [0, 6, 0, 0, 0, 0, 0, 0, 0, 13], blk_finalized = True\<rparr>] \<and>
     lastMaxSn s' = 13"
proof -
  have "shouldPersist plasma0" "MaxSnSyncFrequency plasma0 \<noteq> 0"
    by (simp_all add: plasma0_def)
  from updateMaxSn_frequency [OF this, of 2 False]
  obtain s' where "updateMaxSn plasma0 2 False = Inr s'" "numSnCreated s' = numSnCreated plasma0 + 1"
    "lss_blocks (lss s') = lss_blocks (lss plasma0) @
       [\<lparr>blk_buf = be16 (lssBlockType_code lssMaxSn) @ be64 (2 + MaxSnSyncFrequency plasma0 + 1),
         blk_finalized = True\<rparr>]"
    "lastMaxSn s' = 2 + MaxSnSyncFrequency plasma0 + 1"
    by (auto simp: plasma0_def)
  then show ?thesis by (simp add: plasma0_def be16_def be64_def)
qed


text \<open>
  With a sync frequency of zero the remainder is taken first and panics, whatever
  \<open>force\<close> is: this is why the frequency is assumed to be non-zero above.
\<close>

lemma updateMaxSn_zero_frequency:
  "shouldPersist s \<Longrightarrow> MaxSnSyncFrequency s = 0 \<Longrightarrow> updateMaxSn s n force = Inl DivideByZero"
  by (simp add: updateMaxSn_def go_rem_def)

section \<open>Creating a snapshot\<close>

lemma updateMaxSn_frame:
  assumes "shouldPersist s \<longrightarrow> MaxSnSyncFrequency s \<noteq> 0"
  shows "\<exists>l m k. updateMaxSn s n force = Inr (s\<lparr>numSnCreated := k, lastMaxSn := m, lss := l\<rparr>)"
proof (cases "shouldPersist s")
  case False
  have "s = s\<lparr>numSnCreated := numSnCreated s, lastMaxSn := lastMaxSn s, lss := lss s\<rparr>" by simp
  moreover have "updateMaxSn s n force = Inr s" using False by (simp add: updateMaxSn_def)
  ultimately show ?thesis by metis
next
  case True
  then obtain r where g: "go_rem (numSnCreated s) (MaxSnSyncFrequency s) = Inr r"
    using assms by (simp add: go_rem_def)
  show ?thesis
  proof (cases "r = 0 \<or> force")
    case w: True
    define maxSn where "maxSn = n + (MaxSnSyncFrequency s + 1)"
    obtain off res l where rs:
      "ReserveSpace (lss s) (length (be64 maxSn) + lssBlockTypeSize) = ((off, res), l)"
      by (metis prod.exhaust)
    have "lss_wbuf l res = replicate (length (be64 maxSn) + lssBlockTypeSize) 0"
      using ReserveSpace_wbuf [OF rs] by blast
    then have wr: "writeLSSBlock (lss_wbuf l res) lssMaxSn (be64 maxSn) =
           Inr (be16 (lssBlockType_code lssMaxSn) @ be64 maxSn)"
      by (simp only: writeLSSBlock_fresh)
    have "updateMaxSn s n force =
        Inr (s\<lparr>numSnCreated := numSnCreated s + 1, lastMaxSn := maxSn,
               lss := Sync (FinalizeWrite (lss_set_wbuf l res (be16 (lssBlockType_code lssMaxSn) @ be64 maxSn)) res) True\<rparr>)"
      unfolding updateMaxSn_def Let_def
      using True g w rs wr by (simp add: PutUint64_fresh maxSn_def)
    then show ?thesis by blast
  next
    case nw: False
    have "updateMaxSn s n force = Inr (s\<lparr>numSnCreated := numSnCreated s + 1\<rparr>)"
      by (rule updateMaxSn_skip [OF True g nw])
    moreover have "s\<lparr>numSnCreated := numSnCreated s + 1\<rparr> =
        s\<lparr>numSnCreated := numSnCreated s + 1, lastMaxSn := lastMaxSn s, lss := lss s\<rparr>" by simp
    ultimately show ?thesis by metis
  qed
qed

lemma rollup_writers_count:
  "fst (snd (rollup_writers mm ws l c)) = c + sum_list (map w_count ws)"
proof (induction ws arbitrary: l c)
  case Nil
  show ?case by simp
next
  case (Cons w ws)
  show ?case
  proof (cases "mm \<and> 0 < length (w_reclaimList w)")
    case True
    obtain l' c' ws' where r: "rollup_writers mm ws (l @ [w_reclaimList w]) (c + w_count w) = (l', c', ws')"
      by (metis prod.exhaust)
    then have "c' = c + w_count w + sum_list (map w_count ws)"
      using Cons.IH [of "l @ [w_reclaimList w]" "c + w_count w"] by simp
    then show ?thesis using True r by (simp add: Let_def add.assoc)
  next
    case False
    obtain l' c' ws' where r: "rollup_writers mm ws l (c + w_count w) = (l', c', ws')"
      by (metis prod.exhaust)
    then have "c' = c + w_count w + sum_list (map w_count ws)"
      using Cons.IH [of l "c + w_count w"] by simp
    then show ?thesis using False r by (auto simp: Let_def add.assoc)
  qed
qed

lemma newSnapshot_effect:
  assumes "EnableShapshots s" and "currSnapshot s = Some a" and "a < length (snapshots s)"
    and "shouldPersist s \<longrightarrow> MaxSnSyncFrequency s \<noteq> 0"
  shows "\<exists>s'. newSnapshot s = Inr (a, s') \<and>
     currSn s' = currSn s + 1 \<and>
     length (snapshots s') = length (snapshots s) + 1 \<and>
     currSnapshot s' = Some (length (snapshots s)) \<and>
     snap_sn (snapshots s' ! length (snapshots s)) = currSn s + 1 \<and>
     snap_refCount (snapshots s' ! length (snapshots s)) = 2 \<and>
     snap_child (snapshots s' ! a) = Some (length (snapshots s)) \<and>
     snap_sn (snapshots s' ! a) = snap_sn (snapshots s ! a) \<and>
     snap_count (snapshots s' ! a) = itemsCount s' \<and>
     itemsCount s' = itemsCount s + sum_list (map w_count (wlist s))"
proof -
  define n where "n = length (snapshots s)"
  define new where "new = \<lparr>snap_sn = currSn s + 1, snap_refCount = 2, snap_child = None,
                        snap_count = 0, snap_persisted = False, snap_meta = []\<rparr>"
  define s1 where "s1 = s\<lparr>currSn := currSn s + 1,
      snapshots := (snapshots s @ [new])[a := ((snapshots s @ [new]) ! a)\<lparr>snap_child := Some n\<rparr>],
      currSnapshot := Some n\<rparr>"
  have "shouldPersist s1 \<longrightarrow> MaxSnSyncFrequency s1 \<noteq> 0" using assms(4) by (simp add: s1_def)
  then obtain l m k where u: "updateMaxSn s1 (currSn s + 1) False =
      Inr (s1\<lparr>numSnCreated := k, lastMaxSn := m, lss := l\<rparr>)"
    using updateMaxSn_frame by blast
  define s2 where "s2 = s1\<lparr>numSnCreated := k, lastMaxSn := m, lss := l\<rparr>"
  obtain smr cnt ws where rw: "rollup_writers (useMemMgmt s2) (wlist s2) [] (itemsCount s2) = (smr, cnt, ws)"
    by (metis prod.exhaust)
  have sn_new: "snap_sn ((snapshots s1) ! n) = currSn s + 1"
    using assms(3) by (simp add: s1_def n_def new_def nth_append)
  have cnt: "cnt = itemsCount s + sum_list (map w_count (wlist s))"
    using rollup_writers_count [of "useMemMgmt s2" "wlist s2" "[]" "itemsCount s2"] rw
    by (simp add: s2_def s1_def)
  have "newSnapshot s = Inr (a, s2\<lparr>itemsCount := cnt, wlist := ws,
          snapshots := (snapshots s2)[a := (snapshots s2 ! a)\<lparr>snap_count := cnt\<rparr>],
          freed := freed s2 @ [smr]\<rparr>)"
    unfolding newSnapshot_def Let_def
    using assms(1,2,3) u rw sn_new
    by (simp add: s1_def [symmetric] n_def [symmetric] new_def [symmetric] s2_def [symmetric]
        FreeObjects_def)
  then show ?thesis
    using assms(3) cnt by (simp add: s2_def s1_def n_def new_def nth_append)
qed

text \<open>
  Claim C2, as the code has it. With snapshots enabled, a valid current snapshot and (under
  persistence) a non-zero sync frequency, \<open>newSnapshot\<close> increments \<open>currSn\<close>, allocates
  a fresh snapshot whose \<open>sn\<close> is the incremented value and whose \<open>refCount\<close> is 2, links
  it as the child of the previous current snapshot and makes it the current one. The
  snapshot it returns is the previous current snapshot (the named result \<open>snap\<close> is set
  before the allocation), with its \<open>count\<close> set to the rolled-up \<open>itemsCount\<close>.
\<close>

theorem newSnapshot_returns_previous:
  assumes "EnableShapshots s" and "currSnapshot s = Some a" and "a < length (snapshots s)"
    and "shouldPersist s \<longrightarrow> MaxSnSyncFrequency s \<noteq> 0"
  shows "\<exists>s'. newSnapshot s = Inr (a, s') \<and>
     currSn s' = currSn s + 1 \<and>
     length (snapshots s') = length (snapshots s) + 1 \<and>
     currSnapshot s' = Some (length (snapshots s)) \<and>
     snap_sn (snapshots s' ! length (snapshots s)) = currSn s + 1 \<and>
     snap_refCount (snapshots s' ! length (snapshots s)) = 2 \<and>
     snap_child (snapshots s' ! a) = Some (length (snapshots s)) \<and>
     snap_sn (snapshots s' ! a) = snap_sn (snapshots s ! a) \<and>
     snap_count (snapshots s' ! a) = itemsCount s' \<and>
     itemsCount s' = itemsCount s + sum_list (map w_count (wlist s))"
  using assms by (rule newSnapshot_effect)

theorem newSnapshot_returns_previous_witness:
  "\<exists>s'. newSnapshot plasma0 = Inr (0, s') \<and> currSn s' = 2 \<and> currSnapshot s' = Some 1 \<and>
     snap_sn (snapshots s' ! 1) = 2 \<and> snap_refCount (snapshots s' ! 1) = 2 \<and>
     snap_child (snapshots s' ! 0) = Some 1 \<and> snap_sn (snapshots s' ! 0) = 1 \<and>
     snap_count (snapshots s' ! 0) = 7"
proof -
  have "EnableShapshots plasma0" "currSnapshot plasma0 = Some 0" "0 < length (snapshots plasma0)"
    "shouldPersist plasma0 \<longrightarrow> MaxSnSyncFrequency plasma0 \<noteq> 0"
    by (simp_all add: plasma0_def)
  from newSnapshot_returns_previous [OF this]
  show ?thesis by (auto simp: plasma0_def snap0_def)
qed

text \<open>
  The claim says that the newly allocated snapshot is returned. On the store \<open>plasma0\<close>
  the call returns address 0, the snapshot with \<open>sn = 1\<close> that was current before, while
  the new snapshot with \<open>sn = 2\<close> sits at address 1.
\<close>

theorem newSnapshot_result_counterexample:
  "(case newSnapshot plasma0 of
      Inl e \<Rightarrow> False
    | Inr (snap, s') \<Rightarrow> snap = 0 \<and> currSnapshot s' = Some 1 \<and> length (snapshots s') = 2 \<and>
        snap_sn (snapshots s' ! snap) = 1 \<and> snap_sn (snapshots s' ! 1) = 2 \<and> currSn s' = 2)"
proof -
  have "EnableShapshots plasma0" "currSnapshot plasma0 = Some 0" "0 < length (snapshots plasma0)"
    "shouldPersist plasma0 \<longrightarrow> MaxSnSyncFrequency plasma0 \<noteq> 0"
    by (simp_all add: plasma0_def)
  from newSnapshot_effect [OF this]
  show ?thesis by (auto simp: plasma0_def snap0_def)
qed


section \<open>Merging a sibling\<close>

text \<open>
  Claim C5, as the code has it. \<open>Merge\<close> links the sibling's chain below its head,
  \<open>sp.head.next\<close>: where that node exists and this page has a head, the new head is a
  \<open>mergePageDelta\<close> over that node, with the old hiItm as pivot, whose hiItm is that node's
  hiItm, whose chainLen is the old chainLen plus that node's chainLen plus 1 and whose
  numItems is the sum of the two. For a sibling that was closed with \<open>Close\<close> the node below
  the head carries the same header as the sibling's head, so these are the sibling's own
  values.
\<close>

theorem Merge_links_below_head:
  assumes "next_of (head sp) = Inr sibl" and "sibl \<noteq> NilDelta" and "head pg \<noteq> NilDelta"
  shows "Merge pg sp =
           Inr (pg\<lparr>head := MergePageDelta
                  \<lparr>chainLen = chainLen (hdr_of (head pg)) + chainLen (hdr_of sibl) + 1,
                   numItems = numItems (hdr_of (head pg)) + numItems (hdr_of sibl),
                   hiItm = hiItm (hdr_of sibl),
                   rightSibling = rightSibling (hdr_of sibl)\<rparr>
                  (head pg) (hiItm (hdr_of (head pg))) sibl\<rparr>) \<and>
         (\<forall>sp0. Close sp0 = Inr sp \<longrightarrow> hdr_of sibl = hdr_of (head sp))"
proof -
  have c: "\<forall>sp0. Close sp0 = Inr sp \<longrightarrow> hdr_of sibl = hdr_of (head sp)"
  proof (intro allI impI)
    fix sp0 assume "Close sp0 = Inr sp"
    then have "head sp = RemovePageDelta (hdr_of (head sp0)) (head sp0)"
      by (auto simp: Close_def newRemovePageDelta_def split: if_splits)
    then show "hdr_of sibl = hdr_of (head sp)" using assms(1) by simp
  qed
  show ?thesis
    using assms c
    by (simp add: Merge_def newMergePageDelta_def Let_def hdr0_def add.assoc)
qed

theorem Merge_links_below_head_witness:
  "Merge page0 \<lparr>low = Item [1, 7], prevHeadPtr = None,
                 head = RemovePageDelta (hdr_of base1) base1\<rparr> =
     Inr (page0\<lparr>head := MergePageDelta
            \<lparr>chainLen = 1, numItems = 6, hiItm = Item [1, 9], rightSibling = Some 1\<rparr>
            base0 MaxItem base1\<rparr>) \<and>
   hdr_of base1 = hdr_of (head \<lparr>low = Item [1, 7], prevHeadPtr = None,
                 head = RemovePageDelta (hdr_of base1) base1\<rparr>)"
proof -
  let ?sp = "\<lparr>low = Item [1, 7], prevHeadPtr = None, head = RemovePageDelta (hdr_of base1) base1\<rparr>"
  have a: "next_of (head ?sp) = Inr base1" "base1 \<noteq> NilDelta" "head page0 \<noteq> NilDelta"
    by (simp_all add: base1_def page0_def base0_def)
  have b: "Close page1 = Inr ?sp"
    by (simp add: Close_def newRemovePageDelta_def page1_def base1_def)
  from Merge_links_below_head [OF a] b show ?thesis
    by (simp add: page0_def base0_def base1_def)
qed

text \<open>
  For a sibling whose head is an insert delta (chainLen 1) over a base page, the merged
  chainLen is 1, not the \<open>0 + 1 + 1\<close> of the claim: the sibling's head is skipped.
\<close>

theorem Merge_open_sibling_counterexample:
  "Merge page0 (Insert page1 (Item [1, 6])) =
     Inr (page0\<lparr>head := MergePageDelta
            \<lparr>chainLen = 1, numItems = 6, hiItm = Item [1, 9], rightSibling = Some 1\<rparr>
            base0 MaxItem base1\<rparr>) \<and>
   chainLen (hdr_of (head page0)) + chainLen (hdr_of (head (Insert page1 (Item [1, 6])))) + 1 = 2"
  by (simp add: Merge_def newMergePageDelta_def Insert_def newRecordDelta_def Let_def hdr0_def
      page0_def page1_def base0_def base1_def)

section \<open>Looking an item up\<close>

lemma search_loop_least:
  "i \<le> j \<Longrightarrow> j \<le> n \<Longrightarrow> \<forall>k<i. \<not> P k \<Longrightarrow> \<forall>k. j \<le> k \<and> k < n \<longrightarrow> P k \<Longrightarrow>
         \<forall>k<n. f k = Inr (P k) \<Longrightarrow> \<forall>a b. a \<le> b \<and> b < n \<and> P a \<longrightarrow> P b \<Longrightarrow>
         \<exists>r. search_loop f i j = Inr r \<and> r \<le> n \<and> (\<forall>k<r. \<not> P k) \<and> (\<forall>k. r \<le> k \<and> k < n \<longrightarrow> P k)"
proof (induction f i j rule: search_loop.induct)
  case (1 f i j)
  show ?case
  proof (cases "i < j")
    case False
    then have "search_loop f i j = Inr i" by (subst search_loop.simps) simp
    moreover have "i = j" using False "1.prems"(1) by simp
    ultimately show ?thesis using "1.prems" by auto
  next
    case True
    define h where "h = (i + j) div 2"
    have hb: "i \<le> h" "h < j" using True by (simp_all add: h_def)
    then have hn: "h < n" using "1.prems"(2) by simp
    then have fh: "f h = Inr (P h)" using "1.prems"(5) by simp
    note mono = "1.prems"(6)
    show ?thesis
    proof (cases "P h")
      case False
      have lo: "\<forall>k<h + 1. \<not> P k"
      proof (intro allI impI)
        fix k assume "k < h + 1"
        then have "k \<le> h" by simp
        then show "\<not> P k" using mono hn False by blast
      qed
      have "\<exists>r. search_loop f (h + 1) j = Inr r \<and> r \<le> n \<and> (\<forall>k<r. \<not> P k) \<and>
              (\<forall>k. r \<le> k \<and> k < n \<longrightarrow> P k)"
        using "1.IH"(1) [OF True h_def fh False] hb "1.prems"(2,4,5,6) lo by simp
      moreover have "search_loop f i j = search_loop f (h + 1) j"
        using True fh False by (subst search_loop.simps) (simp add: h_def Let_def)
      ultimately show ?thesis by simp
    next
      case Ph: True
      have hi: "\<forall>k. h \<le> k \<and> k < n \<longrightarrow> P k" using mono Ph by blast
      have "\<exists>r. search_loop f i h = Inr r \<and> r \<le> n \<and> (\<forall>k<r. \<not> P k) \<and>
              (\<forall>k. r \<le> k \<and> k < n \<longrightarrow> P k)"
        using "1.IH"(2) [OF True h_def fh] Ph hb hn "1.prems"(3,5,6) hi by simp
      moreover have "search_loop f i j = search_loop f i h"
        using True fh Ph by (subst search_loop.simps) (simp add: h_def Let_def)
      ultimately show ?thesis by simp
    qed
  qed
qed

lemma lookup_base_sorted:
  assumes n: "unat (numItems h) \<le> length its"
    and srt: "sorted (map (\<lambda>x. sgn (cmp ctx x itm)) (take (unat (numItems h)) its))"
  shows "lookup_chain ctx (BasePage h its) itm =
           Inr (case find (\<lambda>x. cmp ctx x itm = 0) (take (unat (numItems h)) its) of
                  None \<Rightarrow> NilPtr | Some x \<Rightarrow> x)"
proof -
  define n where "n = unat (numItems h)"
  define f where "f = (\<lambda>i. bindE (index its i) (\<lambda>x. Inr (0 \<le> cmp ctx x itm)))"
  define P where "P = (\<lambda>k. 0 \<le> cmp ctx (its ! k) itm)"
  define ys where "ys = take n its"
  have nl: "n \<le> length its" using assms(1) by (simp add: n_def)
  have ly: "length ys = n" using nl by (simp add: ys_def)
  have yk: "\<And>k. k < n \<Longrightarrow> ys ! k = its ! k" by (simp add: ys_def)
  have fk: "\<forall>k<n. f k = Inr (P k)" using nl by (simp add: f_def P_def index_def)
  have sg: "\<And>a b. a \<le> b \<Longrightarrow> b < n \<Longrightarrow> sgn (cmp ctx (its ! a) itm) \<le> sgn (cmp ctx (its ! b) itm)"
  proof -
    fix a b assume ab: "a \<le> b" "b < n"
    have "map (\<lambda>x. sgn (cmp ctx x itm)) ys ! a \<le> map (\<lambda>x. sgn (cmp ctx x itm)) ys ! b"
      using srt ab ly by (intro sorted_nth_mono) (simp_all add: ys_def n_def)
    then show "sgn (cmp ctx (its ! a) itm) \<le> sgn (cmp ctx (its ! b) itm)"
      using ab ly yk by simp
  qed
  have mono: "\<forall>a b. a \<le> b \<and> b < n \<and> P a \<longrightarrow> P b"
  proof (intro allI impI)
    fix a b assume "a \<le> b \<and> b < n \<and> P a"
    then have "0 \<le> cmp ctx (its ! a) itm" "sgn (cmp ctx (its ! a) itm) \<le> sgn (cmp ctx (its ! b) itm)"
      using sg by (simp_all add: P_def)
    then show "P b" by (auto simp: P_def sgn_if split: if_splits)
  qed
  have "\<exists>r. search_loop f 0 n = Inr r \<and> r \<le> n \<and> (\<forall>k<r. \<not> P k) \<and> (\<forall>k. r \<le> k \<and> k < n \<longrightarrow> P k)"
    by (rule search_loop_least) (use fk mono in auto)
  then obtain r where r: "search_loop f 0 n = Inr r" "r \<le> n" "\<forall>k<r. \<not> P k" "\<forall>k. r \<le> k \<and> k < n \<longrightarrow> P k"
    by blast
  have lk: "lookup_chain ctx (BasePage h its) itm =
      (if r < n then (if cmp ctx (its ! r) itm = 0 then Inr (its ! r) else Inr NilPtr) else Inr NilPtr)"
  proof -
    have "lookup_chain ctx (BasePage h its) itm =
          bindE (sort_Search n f) (\<lambda>idx.
            if idx < n then bindE (index its idx) (\<lambda>x. if cmp ctx x itm = 0 then Inr x else Inr NilPtr)
            else Inr NilPtr)"
      by (simp add: n_def f_def Let_def)
    also have "\<dots> = (if r < n then bindE (index its r) (\<lambda>x. if cmp ctx x itm = 0 then Inr x else Inr NilPtr)
            else Inr NilPtr)"
      by (simp add: sort_Search_def r(1))
    also have "\<dots> = (if r < n then (if cmp ctx (its ! r) itm = 0 then Inr (its ! r) else Inr NilPtr)
            else Inr NilPtr)"
      using nl by (simp add: index_def)
    finally show ?thesis .
  qed
  have below: "\<And>k. k < r \<Longrightarrow> cmp ctx (its ! k) itm \<noteq> 0" using r(3) by (auto simp: P_def)
  show ?thesis
  proof (cases "r < n \<and> cmp ctx (its ! r) itm = 0")
    case True
    have "find (\<lambda>x. cmp ctx x itm = 0) ys = Some (its ! r)"
      unfolding find_Some_iff
      using True below r(2) ly yk by (intro exI [of _ r]) auto
    then show ?thesis using True lk by (simp add: ys_def n_def)
  next
    case False
    have "\<And>k. k < n \<Longrightarrow> cmp ctx (its ! k) itm \<noteq> 0"
    proof -
      fix k assume kn: "k < n"
      show "cmp ctx (its ! k) itm \<noteq> 0"
      proof (cases "k < r")
        case True
        then show ?thesis using below by simp
      next
        case kr: False
        then have rn: "r < n" using kn by simp
        then have "P r" using r(4) by simp
        then have "0 < cmp ctx (its ! r) itm" using False rn by (simp add: P_def)
        then have "1 \<le> sgn (cmp ctx (its ! k) itm)" using sg [of r k] kr kn by simp
        then show ?thesis by (simp add: sgn_if split: if_splits)
      qed
    qed
    then have "find (\<lambda>x. cmp ctx x itm = 0) ys = None"
      unfolding find_None_iff using ly yk by (metis in_set_conv_nth)
    then show ?thesis using False lk by (auto simp: ys_def n_def)
  qed
qed

text \<open>
  Claim C3. \<open>Lookup\<close> answers "not found" on an empty page; otherwise it starts at the
  chain of the right sibling when \<open>compare(item, head.hiItm) \<ge> 0\<close> and at the head when
  not. Along the chain an insert delta with an equal item returns that item, a delete
  delta with an equal item returns "not found" (\<open>NilPtr\<close>), any other record delta and a
  split delta are passed over, a merge delta continues into the merged sibling when
  \<open>item \<ge> pivot\<close> and with the next node when not, and a base page is resolved by the
  binary search: where the first \<open>numItems\<close> entries of \<open>items\<close> are ordered with respect to
  the item, the answer is the first entry equal to it, or "not found" when there is none.
\<close>

theorem Lookup_walks_chain:
  "Lookup ctx pg itm =
     (if head pg = NilDelta then Inr NilPtr
      else if 0 \<le> cmp ctx itm (hiItm (hdr_of (head pg)))
           then lookup_chain ctx (getDeltas ctx (rightSibling (hdr_of (head pg)))) itm
           else lookup_chain ctx (head pg) itm) \<and>
   (cmp ctx x itm = 0 \<longrightarrow>
      lookup_chain ctx (RecordDelta opInsertDelta h nx x) itm = Inr x \<and>
      lookup_chain ctx (RecordDelta opDeleteDelta h nx x) itm = Inr NilPtr) \<and>
   (cmp ctx x itm \<noteq> 0 \<longrightarrow>
      lookup_chain ctx (RecordDelta opr h nx x) itm = lookup_chain ctx nx itm) \<and>
   (0 \<le> cmp ctx itm x \<longrightarrow>
      lookup_chain ctx (MergePageDelta h nx x sib) itm = lookup_chain ctx sib itm) \<and>
   (cmp ctx itm x < 0 \<longrightarrow>
      lookup_chain ctx (MergePageDelta h nx x sib) itm = lookup_chain ctx nx itm) \<and>
   lookup_chain ctx (SplitPageDelta h nx x) itm = lookup_chain ctx nx itm \<and>
   (unat (numItems h) \<le> length its \<and>
    sorted (map (\<lambda>y. sgn (cmp ctx y itm)) (take (unat (numItems h)) its)) \<longrightarrow>
      lookup_chain ctx (BasePage h its) itm =
        Inr (case find (\<lambda>y. cmp ctx y itm = 0) (take (unat (numItems h)) its) of
               None \<Rightarrow> NilPtr | Some y \<Rightarrow> y))"
proof -
  have rec: "cmp ctx x itm \<noteq> 0 \<longrightarrow>
      lookup_chain ctx (RecordDelta opr h nx x) itm = lookup_chain ctx nx itm"
    by (cases opr) simp_all
  show ?thesis
    using rec lookup_base_sorted [of h its ctx itm] by (simp add: Lookup_def)
qed

theorem Lookup_walks_chain_witness:
  "Lookup ctx0 (Delete (Insert page0 (Item [1, 6])) (Item [1, 5])) (Item [1, 6]) = Inr (Item [1, 6]) \<and>
   Lookup ctx0 (Delete (Insert page0 (Item [1, 6])) (Item [1, 5])) (Item [1, 5]) = Inr NilPtr \<and>
   lookup_chain ctx0 base0 (Item [1, 5]) = Inr (Item [1, 5]) \<and>
   lookup_chain ctx0 base0 (Item [1, 6]) = Inr NilPtr"
proof -
  let ?h = "\<lparr>chainLen = 0, numItems = 4, hiItm = MaxItem, rightSibling = None\<rparr>"
  let ?its = "[Item [1, 1], Item [1, 3], Item [1, 5], Item [1, 7]]"
  have s5: "unat (numItems ?h) \<le> length ?its \<and>
      sorted (map (\<lambda>y. sgn (cmp ctx0 y (Item [1, 5]))) (take (unat (numItems ?h)) ?its))"
    by (simp add: ctx0_def)
  have s6: "unat (numItems ?h) \<le> length ?its \<and>
      sorted (map (\<lambda>y. sgn (cmp ctx0 y (Item [1, 6]))) (take (unat (numItems ?h)) ?its))"
    by (simp add: ctx0_def)
  have b5: "lookup_chain ctx0 base0 (Item [1, 5]) = Inr (Item [1, 5])"
    using Lookup_walks_chain [where ctx = ctx0 and itm = "Item [1, 5]" and h = ?h and its = ?its] s5
    by (simp add: base0_def ctx0_def)
  have b6: "lookup_chain ctx0 base0 (Item [1, 6]) = Inr NilPtr"
    using Lookup_walks_chain [where ctx = ctx0 and itm = "Item [1, 6]" and h = ?h and its = ?its] s6
    by (simp add: base0_def ctx0_def)
  have l6: "Lookup ctx0 (Delete (Insert page0 (Item [1, 6])) (Item [1, 5])) (Item [1, 6]) = Inr (Item [1, 6])"
    by (simp add: Lookup_def Delete_def Insert_def newRecordDelta_def page0_def base0_def ctx0_def Let_def)
  have l5: "Lookup ctx0 (Delete (Insert page0 (Item [1, 6])) (Item [1, 5])) (Item [1, 5]) = Inr NilPtr"
    by (simp add: Lookup_def Delete_def Insert_def newRecordDelta_def page0_def base0_def ctx0_def Let_def)
  show ?thesis using b5 b6 l5 l6 by simp
qed

section \<open>The marshalled form of a page\<close>


text \<open>
  Claim C10. Where \<open>Marshal\<close> returns, its output is the encoding \<open>enc_page\<close>: the header,
  then the deltas down to the first base page or flush delta, in which a record delta
  (insert or delete) appears as \<open>{op, itemLen, itemBytes}\<close> only when
  \<open>compare(item, head.hiItm) < 0\<close> and leaves no byte otherwise. It does return that
  encoding whenever the items it reads are readable and the buffer is longer than the
  encoding.
\<close>

theorem Marshal_emits_in_range_records:
  assumes "head pg \<noteq> NilDelta"
  shows "(Marshal ctx pg cap = Inr bs \<longrightarrow> bs = enc_page ctx pg) \<and>
         ((\<forall>p\<in>set (marshalled_items ctx pg). readable ctx p) \<and> length (enc_page ctx pg) < cap \<longrightarrow>
            Marshal ctx pg cap = Inr (enc_page ctx pg))"
  using assms Marshal_enc_page [of pg ctx cap bs] Marshal_ok [of pg ctx cap] by blast

theorem Marshal_emits_in_range_records_witness:
  "Marshal ctx0 page2 64 =
     Inr [0, 2, 0, 2, 0, 2, 1, 9, 0, 2, 1, 9, 0, 2, 0, 2, 1, 8, 0, 0, 0, 2, 0, 2, 1, 7, 0, 2, 1, 8]"
proof -
  have h: "head page2 \<noteq> NilDelta"
    by (simp add: page2_eq)
  have r: "\<forall>p\<in>set (marshalled_items ctx0 page2). readable ctx0 p"
    apply (simp add: page2_eq marshalled_items_def base1_def)
    apply (simp add: readable_def ctx0_def)
    done
  have l: "length (enc_page ctx0 page2) < 64" by (simp add: enc_page2)
  from Marshal_emits_in_range_records [OF h, of ctx0 64 "[]"] r l
  have "Marshal ctx0 page2 64 = Inr (enc_page ctx0 page2)" by blast
  then show ?thesis by (simp only: enc_page2)
qed

section \<open>The upper bound of a page across marshalling\<close>

lemma newBasePage_Inr:
  "newBasePage ctx pg itms = Inr bp \<Longrightarrow> \<exists>h its. bp = BasePage h its"
  by (auto simp: newBasePage_def bindE_eq_Inr Let_def)

lemma unmarshal_loop_hiItm:
  "unmarshal_loop ctx pg h cl data roffset prev = Inr (pd, c) \<Longrightarrow> all_hiItm (hiItm h) pd"
proof (induction ctx pg h cl data roffset prev arbitrary: pd c rule: unmarshal_loop.induct)
  case (1 ctx pg h cl data roffset prev)
  show ?case
  proof (cases "roffset < length data")
    case False
    then have "pd = NilDelta" using "1.prems" by (subst (asm) unmarshal_loop.simps) simp
    then show ?thesis by simp
  next
    case True
    then obtain nd r' where nd: "unmarshal_node data roffset = Inr (nd, r')"
      using "1.prems" by (subst (asm) unmarshal_loop.simps) (auto simp: bindE_eq_Inr)
    show ?thesis
    proof (cases nd)
      case (URec opr itm)
      then obtain rest where
        r: "unmarshal_loop ctx pg h (cl - 1) data r' (if prev = 2 then 2 else 1) = Inr (rest, c)"
        and pd: "pd = RecordDelta opr (h\<lparr>chainLen := of_int cl\<rparr>) rest itm"
        using "1.prems" True nd
        by (subst (asm) unmarshal_loop.simps) (auto simp: bindE_eq_Inr)
      have "all_hiItm (hiItm h) rest"
        using "1.IH"(1) [OF True nd refl URec r] .
      then show ?thesis by (simp add: pd)
    next
      case (UBase itms)
      then obtain bp where bp: "newBasePage ctx pg itms = Inr bp"
        and pd: "pd = set_hdr (\<lambda>b. b\<lparr>hiItm := hiItm h, rightSibling := rightSibling h\<rparr>) bp"
        using "1.prems" True nd
        by (subst (asm) unmarshal_loop.simps) (auto simp: bindE_eq_Inr)
      obtain hb its where "bp = BasePage hb its" using newBasePage_Inr [OF bp] by blast
      then show ?thesis by (simp add: pd)
    next
      case UNone
      then have "unmarshal_loop ctx pg h cl data r' (if prev = 1 then 3 else prev) = Inr (pd, c)"
        using "1.prems" True nd
        by (subst (asm) unmarshal_loop.simps) (auto simp: bindE_eq_Inr)
      then show ?thesis using "1.IH"(3) [OF True nd refl UNone] by simp
    qed
  qed
qed

lemma Unmarshal_MaxItem:
  assumes "head pg0 = NilDelta" and "get16 data 4 = Inr 0"
    and "Unmarshal ctx pg0 data = Inr (pg', c)"
  shows "all_hiItm MaxItem (head pg')"
proof -
  obtain cl ni rs roffset pd where
    "unmarshal_loop ctx pg0 \<lparr>chainLen = cl, numItems = ni, hiItm = MaxItem, rightSibling = rs\<rparr>
        (uint cl) data roffset 0 = Inr (pd, c)" and "pg' = pg0\<lparr>head := pd\<rparr>"
    using assms unfolding Unmarshal_def
    by (auto simp: bindE_eq_Inr split: if_splits prod.splits)
  then show ?thesis using unmarshal_loop_hiItm by fastforce
qed

lemma Marshal_MaxItem:
  assumes "head pg \<noteq> NilDelta" and "hiItm (hdr_of (head pg)) = MaxItem"
    and "Marshal ctx pg cap = Inr bs"
  shows "get16 bs 4 = Inr 0"
proof -
  let ?h = "hdr_of (head pg)"
  have "bs = (be16 (chainLen ?h) @ be16 (numItems ?h)) @ be16 0 @
             (enc_bound ctx (getItem ctx (rightSibling ?h)) @ enc_deltas ctx (hiItm ?h) (head pg))"
    using Marshal_enc_page [OF assms(1,3)] assms(2) by (simp add: enc_page_def enc_bound_def Let_def)
  then have "slice bs 4 (4 + 2) = Inr (be16 0)"
    by (intro slice_middle [where a = "be16 (chainLen ?h) @ be16 (numItems ?h)"]) simp_all
  then show ?thesis by (simp add: get16_def Uint16_be16)
qed

text \<open>
  Claim C9. For a page whose head's hiItm is \<open>MaxItem\<close>, the bytes that \<open>Marshal\<close> returns
  carry 0 in the u16 length field of hiItm (the third field, at offset 4). And whenever
  \<open>Unmarshal\<close> returns on bytes whose hiItm length field is 0, read into a page without a
  head, every node of the chain it built has \<open>MaxItem\<close> as its hiItm, also when ops
  without a case were met on the way and when the last record delta is left linked to
  itself.
\<close>

theorem hiItm_MaxItem_roundtrip:
  "(head pg \<noteq> NilDelta \<and> hiItm (hdr_of (head pg)) = MaxItem \<and> Marshal ctx pg cap = Inr bs \<longrightarrow>
      get16 bs 4 = Inr 0) \<and>
   (head pg0 = NilDelta \<and> get16 data 4 = Inr 0 \<and> Unmarshal ctx pg0 data = Inr (pg', selfLinked) \<longrightarrow>
      all_hiItm MaxItem (head pg'))"
  using Marshal_MaxItem [of pg ctx cap bs] Unmarshal_MaxItem [of pg0 data ctx pg' selfLinked]
  by blast

theorem hiItm_MaxItem_roundtrip_witness:
  "Marshal ctx0 page3 64 = Inr bytes3 \<and> get16 bytes3 4 = Inr 0 \<and>
   Unmarshal ctx0 empty_page bytes3 =
     Inr (empty_page\<lparr>head :=
       RecordDelta opDeleteDelta \<lparr>chainLen = 2, numItems = 4, hiItm = MaxItem, rightSibling = None\<rparr>
         (RecordDelta opInsertDelta \<lparr>chainLen = 1, numItems = 4, hiItm = MaxItem, rightSibling = None\<rparr>
           (BasePage \<lparr>chainLen = 0, numItems = 4, hiItm = MaxItem, rightSibling = None\<rparr>
              [Item [1, 1], Item [1, 3], Item [1, 5], Item [1, 7]])
           (Item [1, 10]))
         (Item [1, 8])\<rparr>, False) \<and>
   all_hiItm MaxItem
     (RecordDelta opDeleteDelta \<lparr>chainLen = 2, numItems = 4, hiItm = MaxItem, rightSibling = None\<rparr>
         (RecordDelta opInsertDelta \<lparr>chainLen = 1, numItems = 4, hiItm = MaxItem, rightSibling = None\<rparr>
           (BasePage \<lparr>chainLen = 0, numItems = 4, hiItm = MaxItem, rightSibling = None\<rparr>
              [Item [1, 1], Item [1, 3], Item [1, 5], Item [1, 7]])
           (Item [1, 10]))
         (Item [1, 8])) \<and>
   Marshal ctx0 flushed3 64 = Inr bytes3f \<and> get16 bytes3f 4 = Inr 0 \<and>
   Unmarshal ctx0 empty_page bytes3f =
     Inr (empty_page\<lparr>head :=
       RecordDelta opDeleteDelta \<lparr>chainLen = 3, numItems = 4, hiItm = MaxItem, rightSibling = None\<rparr>
         (BasePage \<lparr>chainLen = 0, numItems = 0, hiItm = MaxItem, rightSibling = None\<rparr> [])
         (Item [1, 8])\<rparr>, False) \<and>
   all_hiItm MaxItem
     (RecordDelta opDeleteDelta \<lparr>chainLen = 3, numItems = 4, hiItm = MaxItem, rightSibling = None\<rparr>
         (BasePage \<lparr>chainLen = 0, numItems = 0, hiItm = MaxItem, rightSibling = None\<rparr> [])
         (Item [1, 8]))"
proof -
  let ?hd = "RecordDelta opDeleteDelta \<lparr>chainLen = 2, numItems = 4, hiItm = MaxItem, rightSibling = None\<rparr>
         (RecordDelta opInsertDelta \<lparr>chainLen = 1, numItems = 4, hiItm = MaxItem, rightSibling = None\<rparr>
           (BasePage \<lparr>chainLen = 0, numItems = 4, hiItm = MaxItem, rightSibling = None\<rparr>
              [Item [1, 1], Item [1, 3], Item [1, 5], Item [1, 7]])
           (Item [1, 10]))
         (Item [1, 8])"
  let ?hf = "RecordDelta opDeleteDelta \<lparr>chainLen = 3, numItems = 4, hiItm = MaxItem, rightSibling = None\<rparr>
         (BasePage \<lparr>chainLen = 0, numItems = 0, hiItm = MaxItem, rightSibling = None\<rparr> [])
         (Item [1, 8])"
  have m: "Marshal ctx0 page3 64 = Inr bytes3" by code_simp
  have u: "Unmarshal ctx0 empty_page bytes3 = Inr (empty_page\<lparr>head := ?hd\<rparr>, False)" by code_simp
  have p: "head page3 \<noteq> NilDelta \<and> hiItm (hdr_of (head page3)) = MaxItem"
    by (simp add: page3_def Delete_def Insert_def newRecordDelta_def page0_def base0_def Let_def)
  have e: "head empty_page = NilDelta" by (simp add: empty_page_def)
  note T = hiItm_MaxItem_roundtrip [of page3 ctx0 64 bytes3 empty_page bytes3
      "empty_page\<lparr>head := ?hd\<rparr>" False]
  have g: "get16 bytes3 4 = Inr 0" using T p m by blast
  have "all_hiItm MaxItem (head (empty_page\<lparr>head := ?hd\<rparr>))" using T e g u by blast
  then have a: "all_hiItm MaxItem ?hd" by (simp del: all_hiItm.simps)
  have mf: "Marshal ctx0 flushed3 64 = Inr bytes3f" by code_simp
  have uf: "Unmarshal ctx0 empty_page bytes3f = Inr (empty_page\<lparr>head := ?hf\<rparr>, False)" by code_simp
  have pf: "head flushed3 \<noteq> NilDelta \<and> hiItm (hdr_of (head flushed3)) = MaxItem"
    by (simp add: flushed3_def Delete_def newRecordDelta_def page0_def Let_def)
  note F = hiItm_MaxItem_roundtrip [of flushed3 ctx0 64 bytes3f empty_page bytes3f
      "empty_page\<lparr>head := ?hf\<rparr>" False]
  have gf: "get16 bytes3f 4 = Inr 0" using F pf mf by blast
  have "all_hiItm MaxItem (head (empty_page\<lparr>head := ?hf\<rparr>))" using F e gf uf by blast
  then have af: "all_hiItm MaxItem ?hf" by (simp del: all_hiItm.simps)
  show ?thesis using m g u a mf gf uf af by blast
qed

section \<open>Splitting a page\<close>

lemma split_mid_clamped:
  "m < length its \<or> m = 0 \<Longrightarrow>
   \<exists>mid. split_mid ctx its hi m = Inr mid \<and> mid \<le> m \<and>
     (0 < mid \<longrightarrow> cmp ctx (its ! mid) hi < 0) \<and>
     (\<forall>k. mid < k \<and> k \<le> m \<longrightarrow> \<not> cmp ctx (its ! k) hi < 0)"
proof (induction m)
  case 0
  then show ?case by simp
next
  case (Suc m)
  then have lt: "Suc m < length its" by simp
  show ?case
  proof (cases "cmp ctx (its ! Suc m) hi < 0")
    case True
    then show ?thesis using lt by (simp add: index_def)
  next
    case False
    obtain mid where mid: "split_mid ctx its hi m = Inr mid" "mid \<le> m"
      "0 < mid \<longrightarrow> cmp ctx (its ! mid) hi < 0"
      "\<forall>k. mid < k \<and> k \<le> m \<longrightarrow> \<not> cmp ctx (its ! k) hi < 0"
      using Suc.IH lt by auto
    have "\<forall>k. mid < k \<and> k \<le> Suc m \<longrightarrow> \<not> cmp ctx (its ! k) hi < 0"
      using mid(4) False by (auto simp: le_Suc_eq)
    then show ?thesis using mid False lt by (simp add: index_def)
  qed
qed

lemma set_insert_stable: "set (insert_stable ctx x ys) = insert x (set ys)"
  by (induction ys) auto

lemma set_sorter_Run: "set (sorter_Run ctx xs) = set xs"
  by (induction xs) (simp_all add: sorter_Run_def set_insert_stable)

lemma set_sorter_Merge: "set (sorter_Merge ctx bs ds) \<subseteq> set bs \<union> set ds"
  by (induction ctx bs ds rule: sorter_Merge.induct) auto

lemma collect_loop_inRange:
  "\<forall>x\<in>set acc. inRange ctx lo hi (snd x) \<Longrightarrow>
   \<forall>x\<in>set (collect_loop ctx lo hi pd acc). inRange ctx lo hi (snd x)"
proof (induction pd arbitrary: acc)
  case NilDelta
  then show ?case by (simp add: set_sorter_Run)
next
  case (BasePage h its)
  have "set (collect_loop ctx lo hi (BasePage h its) acc) \<subseteq>
        set (map (\<lambda>itm. (True, itm)) (filter (inRange ctx lo hi) its)) \<union> set acc"
    using set_sorter_Merge [of ctx "map (\<lambda>itm. (True, itm)) (filter (inRange ctx lo hi) its)" "sorter_Run ctx acc"]
    by (simp only: collect_loop.simps set_sorter_Run)
  then show ?case using BasePage.prems by auto
next
  case (RecordDelta opr h nx itm)
  let ?acc = "if inRange ctx lo hi itm then acc @ [(opr = opInsertDelta, itm)] else acc"
  have "\<forall>x\<in>set ?acc. inRange ctx lo hi (snd x)" using RecordDelta.prems by simp
  then have "\<forall>x\<in>set (collect_loop ctx lo hi nx ?acc). inRange ctx lo hi (snd x)"
    by (rule RecordDelta.IH)
  then show ?case by (simp only: collect_loop.simps)
next
  case (SplitPageDelta h nx x)
  then show ?case by simp
next
  case (MergePageDelta h nx x sib)
  have "\<forall>x\<in>set (collect_loop ctx lo hi sib []). inRange ctx lo hi (snd x)"
    by (rule MergePageDelta.IH(2)) simp
  then have "\<forall>x\<in>set (acc @ collect_loop ctx lo hi sib []). inRange ctx lo hi (snd x)"
    using MergePageDelta.prems by auto
  then have "\<forall>x\<in>set (collect_loop ctx lo hi nx (acc @ collect_loop ctx lo hi sib [])).
               inRange ctx lo hi (snd x)"
    by (rule MergePageDelta.IH(1))
  then show ?case by (simp only: collect_loop.simps)
next
  case (FlushPageDelta h nx off)
  then show ?case by simp
next
  case (RemovePageDelta h nx)
  then show ?case by simp
qed

lemma collectItems_inRange:
  "\<forall>x\<in>set (collectItems ctx pd lo hi). 0 \<le> cmp ctx x lo \<and> cmp ctx x hi < 0"
  using collect_loop_inRange [of "[]" ctx lo hi pd]
  by (auto simp: collectItems_def collectPageItems_def inRange_def)

lemma sorter_Merge_Nil: "sorter_Merge ctx bs [] = bs"
  by (cases bs) simp_all

lemma collectItems_base:
  "collectItems ctx (BasePage h its) lo hi = filter (inRange ctx lo hi) its"
  by (simp add: collectItems_def collectPageItems_def sorter_Run_def sorter_Merge_Nil
      filter_map comp_def)

lemma copy_items_exact: "\<forall>x\<in>set xs. exact ctx x \<Longrightarrow> copy_items ctx xs = Inr xs"
proof (induction xs)
  case Nil
  show ?case by simp
next
  case (Cons x xs)
  then obtain bs where "x = Item bs" "itemSize ctx x = length bs"
    by (cases x) (auto simp: exact_def)
  then show ?case using Cons by simp
qed

lemma copy_items_length: "copy_items ctx xs = Inr ys \<Longrightarrow> length ys = length xs"
  by (induction xs arbitrary: ys) (auto simp: bindE_eq_Inr)

lemma filter_below_index:
  "\<forall>i<length xs. P (xs ! i) = (i < m) \<Longrightarrow> filter P xs = take m xs"
proof (induction xs arbitrary: m)
  case Nil
  show ?case by simp
next
  case (Cons x xs)
  show ?case
  proof (cases m)
    case 0
    then have "\<forall>y\<in>set (x # xs). \<not> P y" using Cons.prems by (metis in_set_conv_nth less_nat_zero_code)
    then show ?thesis using 0 by simp
  next
    case (Suc m')
    have "P x" using Cons.prems Suc by force
    moreover have "\<forall>i<length xs. P (xs ! i) = (i < m')" using Cons.prems Suc by force
    ultimately show ?thesis using Cons.IH Suc by simp
  qed
qed

lemma Split_declined:
  assumes "find_base (head pg) = Inr its"
    and "split_mid ctx its (hiItm (hdr_of (head pg))) (length its div 2) = Inr 0"
  shows "Split ctx pg pid = Inr (None, pg)"
  using assms by (simp add: Split_def)

lemma Split_done:
  assumes "find_base (head pg) = Inr its"
    and "split_mid ctx its (hiItm (hdr_of (head pg))) (length its div 2) = Inr mid"
    and "0 < mid" and "mid < length its" and "head pg \<noteq> NilDelta"
    and "copy_items ctx (collectItems ctx (head pg) (its ! mid) (hiItm (hdr_of (head pg)))) = Inr copies"
    and "copies \<noteq> []"
  shows "Split ctx pg pid =
     Inr (Some \<lparr>low = hd copies, prevHeadPtr = None,
                head = BasePage \<lparr>chainLen = 0, numItems = of_nat (length copies),
                                 hiItm = hiItm (hdr_of (head pg)),
                                 rightSibling = rightSibling (hdr_of (head pg))\<rparr> copies\<rparr>,
          pg\<lparr>head := SplitPageDelta
                 \<lparr>chainLen = chainLen (hdr_of (head pg)) + 1, numItems = of_nat mid,
                  hiItm = its ! mid, rightSibling = pid\<rparr>
                 (head pg) (its ! mid)\<rparr>)"
proof -
  let ?hi = "hiItm (hdr_of (head pg))"
  let ?itms = "collectItems ctx (head pg) (its ! mid) ?hi"
  let ?bp = "BasePage \<lparr>chainLen = 0, numItems = of_nat (length copies), hiItm = ?hi,
                       rightSibling = rightSibling (hdr_of (head pg))\<rparr> copies"
  have len: "length copies = length ?itms" using assms(6) by (rule copy_items_length)
  have nb: "newBasePage ctx pg ?itms = Inr ?bp"
    using assms(5,6) len by (simp add: newBasePage_def hdr0_def Let_def)
  have i0: "index (chain_items ?bp) 0 = Inr (hd copies)"
    using assms(7) by (cases copies) (simp_all add: index_def)
  have im: "index its mid = Inr (its ! mid)" using assms(4) by (simp add: index_def)
  have tk: "length (take mid its) = mid" using assms(4) by simp
  have sd: "set_hdr (\<lambda>h. h\<lparr>numItems := of_nat mid\<rparr>)
              (set_hdr (\<lambda>h. h\<lparr>hiItm := its ! mid\<rparr>) (newSplitPageDelta pg (its ! mid) pid)) =
            SplitPageDelta \<lparr>chainLen = chainLen (hdr_of (head pg)) + 1, numItems = of_nat mid,
                  hiItm = its ! mid, rightSibling = pid\<rparr> (head pg) (its ! mid)"
    using assms(5) by (simp add: newSplitPageDelta_def Let_def)
  show ?thesis
    unfolding Split_def Let_def
    by (simp only: assms(1,2,3) bindE_Inr if_True im nb i0 tk sd) (cases pg, simp)
qed

text \<open>
  The pivot and the split delta. For a page with a head and a base page below it, \<open>Split\<close>
  starts at \<open>items[len/2]\<close> of the base page and moves down while the item is not below
  the head's hiItm; index 0 is never tested. At index 0 the split is declined: \<open>nil\<close> is
  returned and the page is unchanged. Above 0, the pivot \<open>items[mid]\<close> is below hiItm; the
  items collected from the chain for the new page all lie in \<open>[pivot, hiItm)\<close> (for a page
  that is only a base page they are the base items in that range); and when they can be
  copied and there is at least one, \<open>Split\<close> returns a new page whose head is a base page
  holding the copies, and leaves the old page with a split delta as head whose hiItm is
  the pivot and whose numItems is \<open>mid\<close>, the number of base items before the pivot: under
  an ascending order of the base items, the number of base items below the pivot.
\<close>

lemma Split_pivot_and_delta:
  assumes "head pg \<noteq> NilDelta" and "find_base (head pg) = Inr its"
  shows "\<exists>mid. split_mid ctx its (hiItm (hdr_of (head pg))) (length its div 2) = Inr mid \<and>
      mid \<le> length its div 2 \<and>
      (0 < mid \<longrightarrow> cmp ctx (its ! mid) (hiItm (hdr_of (head pg))) < 0) \<and>
      (\<forall>k. mid < k \<and> k \<le> length its div 2 \<longrightarrow> \<not> cmp ctx (its ! k) (hiItm (hdr_of (head pg))) < 0) \<and>
      (mid = 0 \<longrightarrow> Split ctx pg pid = Inr (None, pg)) \<and>
      (0 < mid \<longrightarrow>
         (\<forall>x\<in>set (collectItems ctx (head pg) (its ! mid) (hiItm (hdr_of (head pg)))).
             0 \<le> cmp ctx x (its ! mid) \<and> cmp ctx x (hiItm (hdr_of (head pg))) < 0) \<and>
         (\<forall>h. head pg = BasePage h its \<longrightarrow>
             collectItems ctx (head pg) (its ! mid) (hiItm (hdr_of (head pg))) =
               filter (\<lambda>x. cmp ctx x (hiItm (hdr_of (head pg))) < 0 \<and> 0 \<le> cmp ctx x (its ! mid)) its) \<and>
         ((\<forall>x\<in>set (collectItems ctx (head pg) (its ! mid) (hiItm (hdr_of (head pg)))). exact ctx x) \<longrightarrow>
             copy_items ctx (collectItems ctx (head pg) (its ! mid) (hiItm (hdr_of (head pg)))) =
               Inr (collectItems ctx (head pg) (its ! mid) (hiItm (hdr_of (head pg))))) \<and>
         (\<forall>copies.
             copy_items ctx (collectItems ctx (head pg) (its ! mid) (hiItm (hdr_of (head pg)))) = Inr copies \<and>
             copies \<noteq> [] \<longrightarrow>
             Split ctx pg pid =
               Inr (Some \<lparr>low = hd copies, prevHeadPtr = None,
                          head = BasePage \<lparr>chainLen = 0, numItems = of_nat (length copies),
                                           hiItm = hiItm (hdr_of (head pg)),
                                           rightSibling = rightSibling (hdr_of (head pg))\<rparr> copies\<rparr>,
                    pg\<lparr>head := SplitPageDelta
                           \<lparr>chainLen = chainLen (hdr_of (head pg)) + 1, numItems = of_nat mid,
                            hiItm = its ! mid, rightSibling = pid\<rparr>
                           (head pg) (its ! mid)\<rparr>)) \<and>
         ((\<forall>i j. i < length its \<and> j < length its \<longrightarrow> (cmp ctx (its ! i) (its ! j) < 0) = (i < j)) \<longrightarrow>
             mid = length (filter (\<lambda>x. cmp ctx x (its ! mid) < 0) its)))"
proof -
  let ?hi = "hiItm (hdr_of (head pg))"
  have "length its div 2 < length its \<or> length its div 2 = 0" by (cases its) simp_all
  then obtain mid where mid: "split_mid ctx its ?hi (length its div 2) = Inr mid"
    "mid \<le> length its div 2" "0 < mid \<longrightarrow> cmp ctx (its ! mid) ?hi < 0"
    "\<forall>k. mid < k \<and> k \<le> length its div 2 \<longrightarrow> \<not> cmp ctx (its ! k) ?hi < 0"
    using split_mid_clamped [of "length its div 2" its ctx ?hi] by blast
  have decl: "mid = 0 \<longrightarrow> Split ctx pg pid = Inr (None, pg)"
    using Split_declined [OF assms(2)] mid(1) by simp
  have ml: "0 < mid \<longrightarrow> mid < length its" using mid(2) by (cases its) auto
  have rng: "\<forall>x\<in>set (collectItems ctx (head pg) (its ! mid) ?hi).
      0 \<le> cmp ctx x (its ! mid) \<and> cmp ctx x ?hi < 0"
    by (rule collectItems_inRange)
  have base: "\<forall>h. head pg = BasePage h its \<longrightarrow>
      collectItems ctx (head pg) (its ! mid) ?hi =
        filter (\<lambda>x. cmp ctx x ?hi < 0 \<and> 0 \<le> cmp ctx x (its ! mid)) its"
  proof -
    have "inRange ctx (its ! mid) ?hi = (\<lambda>x. cmp ctx x ?hi < 0 \<and> 0 \<le> cmp ctx x (its ! mid))"
      by (rule ext) (simp add: inRange_def)
    then show ?thesis by (auto simp: collectItems_base)
  qed
  have ex: "(\<forall>x\<in>set (collectItems ctx (head pg) (its ! mid) ?hi). exact ctx x) \<longrightarrow>
      copy_items ctx (collectItems ctx (head pg) (its ! mid) ?hi) =
        Inr (collectItems ctx (head pg) (its ! mid) ?hi)"
    using copy_items_exact by blast
  have spl: "0 < mid \<longrightarrow> (\<forall>copies.
      copy_items ctx (collectItems ctx (head pg) (its ! mid) ?hi) = Inr copies \<and> copies \<noteq> [] \<longrightarrow>
      Split ctx pg pid =
        Inr (Some \<lparr>low = hd copies, prevHeadPtr = None,
                   head = BasePage \<lparr>chainLen = 0, numItems = of_nat (length copies), hiItm = ?hi,
                                    rightSibling = rightSibling (hdr_of (head pg))\<rparr> copies\<rparr>,
             pg\<lparr>head := SplitPageDelta
                    \<lparr>chainLen = chainLen (hdr_of (head pg)) + 1, numItems = of_nat mid,
                     hiItm = its ! mid, rightSibling = pid\<rparr>
                    (head pg) (its ! mid)\<rparr>))"
    using Split_done [OF assms(2) mid(1) _ _ assms(1)] ml by blast
  have cnt: "0 < mid \<longrightarrow>
      (\<forall>i j. i < length its \<and> j < length its \<longrightarrow> (cmp ctx (its ! i) (its ! j) < 0) = (i < j)) \<longrightarrow>
      mid = length (filter (\<lambda>x. cmp ctx x (its ! mid) < 0) its)"
  proof (intro impI)
    assume m0: "0 < mid"
      and asc: "\<forall>i j. i < length its \<and> j < length its \<longrightarrow> (cmp ctx (its ! i) (its ! j) < 0) = (i < j)"
    have m: "mid < length its" using ml m0 by simp
    then have "\<forall>i<length its. (cmp ctx (its ! i) (its ! mid) < 0) = (i < mid)" using asc by simp
    then have "filter (\<lambda>x. cmp ctx x (its ! mid) < 0) its = take mid its"
      by (rule filter_below_index)
    then show "mid = length (filter (\<lambda>x. cmp ctx x (its ! mid) < 0) its)" using m by simp
  qed
  show ?thesis
    using mid decl rng base ex spl cnt by (intro exI [of _ mid]) blast
qed

lemma page4_eq: "page4 = \<lparr>low = NilPtr, prevHeadPtr = None, head =
   RecordDelta opDeleteDelta \<lparr>chainLen = 2, numItems = 4, hiItm = Item [1, 6], rightSibling = None\<rparr>
    (RecordDelta opInsertDelta \<lparr>chainLen = 1, numItems = 4, hiItm = Item [1, 6], rightSibling = None\<rparr>
      (BasePage \<lparr>chainLen = 0, numItems = 4, hiItm = Item [1, 6], rightSibling = None\<rparr>
         [Item [1, 1], Item [1, 3], Item [1, 5], Item [1, 7]])
      (Item [1, 4])) (Item [1, 3])\<rparr>"
  by (simp add: page4_def Delete_def Insert_def newRecordDelta_def page0_def base0_def Let_def)

lemma Split_pivot_and_delta_page4:
  "Split ctx0 page4 (Some 7) =
     Inr (Some \<lparr>low = Item [1, 5], prevHeadPtr = None,
                head = BasePage \<lparr>chainLen = 0, numItems = 1, hiItm = Item [1, 6],
                                 rightSibling = None\<rparr> [Item [1, 5]]\<rparr>,
          page4\<lparr>head := SplitPageDelta
                 \<lparr>chainLen = 3, numItems = 2, hiItm = Item [1, 5], rightSibling = Some 7\<rparr>
                 (head page4) (Item [1, 5])\<rparr>)"
proof -
  let ?its = "[Item [1, 1], Item [1, 3], Item [1, 5], Item [1, 7]]"
  have a: "head page4 \<noteq> NilDelta" "find_base (head page4) = Inr ?its"
    by (simp_all add: page4_eq)
  have hi: "hiItm (hdr_of (head page4)) = Item [1, 6]" "rightSibling (hdr_of (head page4)) = None"
    "chainLen (hdr_of (head page4)) = 2"
    by (simp_all add: page4_eq)
  from Split_pivot_and_delta [OF a, of ctx0 "Some 7"]
  obtain mid where m: "split_mid ctx0 ?its (Item [1, 6]) (length ?its div 2) = Inr mid"
    and r: "0 < mid \<longrightarrow> (\<forall>copies.
             copy_items ctx0 (collectItems ctx0 (head page4) (?its ! mid) (Item [1, 6])) = Inr copies \<and>
             copies \<noteq> [] \<longrightarrow>
             Split ctx0 page4 (Some 7) =
               Inr (Some \<lparr>low = hd copies, prevHeadPtr = None,
                          head = BasePage \<lparr>chainLen = 0, numItems = of_nat (length copies),
                                           hiItm = Item [1, 6], rightSibling = None\<rparr> copies\<rparr>,
                    page4\<lparr>head := SplitPageDelta
                           \<lparr>chainLen = 2 + 1, numItems = of_nat mid,
                            hiItm = ?its ! mid, rightSibling = Some 7\<rparr>
                           (head page4) (?its ! mid)\<rparr>))"
    unfolding hi by blast
  have "split_mid ctx0 ?its (Item [1, 6]) (length ?its div 2) = Inr 2" by code_simp
  then have m2: "mid = 2" using m by simp
  have c: "copy_items ctx0 (collectItems ctx0 (head page4) (?its ! 2) (Item [1, 6])) = Inr [Item [1, 5]]"
    by code_simp
  show ?thesis using r c unfolding m2 by simp
qed


section \<open>Retrying a persist after a failed compare-and-swap\<close>

lemma discardLSSBlock_written:
  "discardLSSBlock (be16 t @ bs) = Inr (be16 (lssBlockType_code lssDiscard) @ bs)"
  unfolding discardLSSBlock_def PutUint16_def
  using store_append [of "[]" 0 "be16 (lssBlockType_code lssDiscard)" "be16 t @ bs"] by simp

lemma lss_reserve_write:
  assumes "ReserveSpace l0 n = ((off, res), l)"
  shows "FinalizeWrite (lss_set_wbuf l res w) res =
           l0\<lparr>lss_blocks := lss_blocks l0 @ [\<lparr>blk_buf = w, blk_finalized = True\<rparr>]\<rparr>"
    and "lss_wbuf (lss_set_wbuf l res w) res = w"
    and "lss_set_wbuf (lss_set_wbuf l res w) res w' = lss_set_wbuf l res w'"
  using assms by (auto simp: ReserveSpace_def FinalizeWrite_def lss_set_wbuf_def lss_wbuf_def)

lemma Persist_flush_step:
  assumes "NeedsFlush ops pg"
    and "MarshalSeg ops pg (MaxPageLSSSegments ops) = (bs, dataSz, staleFdSz, numSegments)"
  shows "Persist ops evict ((pg, False) # trace) s ctx =
           Persist ops evict trace
             (s\<lparr>lss := (lss s)\<lparr>lss_blocks := lss_blocks (lss s) @ [discarded ops pg]\<rparr>\<rparr>) ctx"
    and "Persist ops evict ((pg, True) # trace) s ctx =
           Some (Inr (if evict then Evict ops pg (sum_list (map (\<lambda>b. length (blk_buf b)) (lss_blocks (lss s)))) numSegments
                      else AddFlushRecord ops pg (sum_list (map (\<lambda>b. length (blk_buf b)) (lss_blocks (lss s)))) dataSz numSegments,
                      s\<lparr>lss := (lss s)\<lparr>lss_blocks := lss_blocks (lss s) @
                          [\<lparr>blk_buf = be16 (lssBlockType_code (pgFlushLSSType pg numSegments)) @ bs,
                            blk_finalized = True\<rparr>]\<rparr>\<rparr>,
                      ctx\<lparr>FlushDataSz := FlushDataSz ctx + (of_nat dataSz - of_nat staleFdSz)\<rparr>))"
proof -
  obtain off res l where rs: "ReserveSpace (lss s) (lssBlockTypeSize + length bs) = ((off, res), l)"
    by (metis prod.exhaust)
  have off: "off = sum_list (map (\<lambda>b. length (blk_buf b)) (lss_blocks (lss s)))"
    using rs by (simp add: ReserveSpace_def)
  have "lss_wbuf l res = replicate (lssBlockTypeSize + length bs) 0"
    using ReserveSpace_wbuf [OF rs] by blast
  then have "lss_wbuf l res = replicate (length bs + lssBlockTypeSize) 0"
    by (simp only: add.commute)
  then have w: "writeLSSBlock (lss_wbuf l res) (pgFlushLSSType pg numSegments) bs =
      Inr (be16 (lssBlockType_code (pgFlushLSSType pg numSegments)) @ bs)"
    by (simp only: writeLSSBlock_fresh)
  note R = lss_reserve_write [OF rs]
  show "Persist ops evict ((pg, False) # trace) s ctx =
           Persist ops evict trace
             (s\<lparr>lss := (lss s)\<lparr>lss_blocks := lss_blocks (lss s) @ [discarded ops pg]\<rparr>\<rparr>) ctx"
    using assms rs w by (simp add: Let_def R discardLSSBlock_written discarded_def)
  show "Persist ops evict ((pg, True) # trace) s ctx =
           Some (Inr (if evict then Evict ops pg (sum_list (map (\<lambda>b. length (blk_buf b)) (lss_blocks (lss s)))) numSegments
                      else AddFlushRecord ops pg (sum_list (map (\<lambda>b. length (blk_buf b)) (lss_blocks (lss s)))) dataSz numSegments,
                      s\<lparr>lss := (lss s)\<lparr>lss_blocks := lss_blocks (lss s) @
                          [\<lparr>blk_buf = be16 (lssBlockType_code (pgFlushLSSType pg numSegments)) @ bs,
                            blk_finalized = True\<rparr>]\<rparr>\<rparr>,
                      ctx\<lparr>FlushDataSz := FlushDataSz ctx + (of_nat dataSz - of_nat staleFdSz)\<rparr>))"
    using assms rs w off by (simp add: Let_def R)
qed

lemma Persist_no_error: "Persist ops evict trace s ctx \<noteq> Some (Inl e)"
proof (induction trace arbitrary: s)
  case Nil
  show ?case by simp
next
  case (Cons a trace)
  obtain pg ok where a: "a = (pg, ok)" by (cases a)
  show ?case
  proof (cases "NeedsFlush ops pg")
    case True
    obtain bs d st n where m: "MarshalSeg ops pg (MaxPageLSSSegments ops) = (bs, d, st, n)"
      by (metis prod.exhaust)
    show ?thesis
      using Persist_flush_step [OF True m, of evict trace s ctx] Cons.IH a by (cases ok) simp_all
  next
    case False
    then show ?thesis using Cons.IH a by (auto split: prod.splits)
  qed
qed

lemma Persist_retries:
  assumes "\<forall>p\<in>set fails. NeedsFlush ops p"
  shows "Persist ops evict (map (\<lambda>p. (p, False)) fails @ trace) s ctx =
         Persist ops evict trace
           (s\<lparr>lss := (lss s)\<lparr>lss_blocks := lss_blocks (lss s) @ map (discarded ops) fails\<rparr>\<rparr>) ctx"
  using assms
proof (induction fails arbitrary: s)
  case Nil
  show ?case by simp
next
  case (Cons p fails)
  obtain bs d st n where m: "MarshalSeg ops p (MaxPageLSSSegments ops) = (bs, d, st, n)"
    by (metis prod.exhaust)
  have "Persist ops evict (map (\<lambda>p. (p, False)) (p # fails) @ trace) s ctx =
        Persist ops evict (map (\<lambda>p. (p, False)) fails @ trace)
          (s\<lparr>lss := (lss s)\<lparr>lss_blocks := lss_blocks (lss s) @ [discarded ops p]\<rparr>\<rparr>) ctx"
    using Persist_flush_step(1) [OF _ m] Cons.prems by simp
  also have "\<dots> = Persist ops evict trace
       (s\<lparr>lss := (lss s)\<lparr>lss_blocks := lss_blocks (lss s) @ map (discarded ops) (p # fails)\<rparr>\<rparr>) ctx"
    using Cons.IH [of "s\<lparr>lss := (lss s)\<lparr>lss_blocks := lss_blocks (lss s) @ [discarded ops p]\<rparr>\<rparr>"]
      Cons.prems by simp
  finally show ?case .
qed

lemma Uint16_be16_append: "Uint16 (be16 v @ bs) = Inr v"
proof -
  have "Uint16 (be16 v @ bs) = Uint16 (be16 v)" by (simp add: Uint16_def be16_def)
  then show ?thesis by (simp add: Uint16_be16)
qed

text \<open>
  Claim C6. An attempt of \<open>Persist\<close> on a page that needs a flush and whose
  compare-and-swap fails leaves one block in the log, finalized and with the type tag
  \<open>lssDiscard\<close> in front of the marshalled bytes, and goes on exactly as \<open>Persist\<close> does from
  the next read of the page; on the evict-only path, where nothing was reserved, it goes
  on without a trace in the log. No run of \<open>Persist\<close> ends in an error. After any number
  of failed attempts, an attempt whose compare-and-swap succeeds returns the page, and
  the log holds the discarded blocks followed by the block of the successful attempt.
\<close>

theorem Persist_retries_after_failed_CAS:
  "(NeedsFlush ops pg \<longrightarrow>
      Persist ops evict ((pg, False) # trace) s ctx =
        Persist ops evict trace
          (s\<lparr>lss := (lss s)\<lparr>lss_blocks := lss_blocks (lss s) @ [discarded ops pg]\<rparr>\<rparr>) ctx) \<and>
   getLSSBlockType (blk_buf (discarded ops pg)) = Inr (lssBlockType_code lssDiscard) \<and>
   blk_finalized (discarded ops pg) \<and>
   (\<not> NeedsFlush ops pg \<and> evict \<and> IsEvictable ops pg \<longrightarrow>
      Persist ops evict ((pg, False) # trace) s ctx = Persist ops evict trace s ctx) \<and>
   Persist ops evict trace s ctx \<noteq> Some (Inl e) \<and>
   ((\<forall>p\<in>set fails. NeedsFlush ops p) \<and> NeedsFlush ops pg \<longrightarrow>
      (\<exists>pg' s' ctx'.
         Persist ops evict (map (\<lambda>p. (p, False)) fails @ (pg, True) # trace) s ctx =
           Some (Inr (pg', s', ctx')) \<and>
         lss_blocks (lss s') = lss_blocks (lss s) @ map (discarded ops) fails @
           [\<lparr>blk_buf = be16 (lssBlockType_code (pgFlushLSSType pg
                             (snd (snd (snd (MarshalSeg ops pg (MaxPageLSSSegments ops))))))) @
                         fst (MarshalSeg ops pg (MaxPageLSSSegments ops)),
             blk_finalized = True\<rparr>]))"
proof -
  obtain bs d st n where m: "MarshalSeg ops pg (MaxPageLSSSegments ops) = (bs, d, st, n)"
    by (metis prod.exhaust)
  have c1: "NeedsFlush ops pg \<longrightarrow>
      Persist ops evict ((pg, False) # trace) s ctx =
        Persist ops evict trace
          (s\<lparr>lss := (lss s)\<lparr>lss_blocks := lss_blocks (lss s) @ [discarded ops pg]\<rparr>\<rparr>) ctx"
    using Persist_flush_step(1) [OF _ m] by blast
  have c2: "getLSSBlockType (blk_buf (discarded ops pg)) = Inr (lssBlockType_code lssDiscard)"
    by (simp only: discarded_def lssBlock.simps getLSSBlockType_def Uint16_be16_append)
  have c3: "blk_finalized (discarded ops pg)" by (simp add: discarded_def)
  have c4: "\<not> NeedsFlush ops pg \<and> evict \<and> IsEvictable ops pg \<longrightarrow>
      Persist ops evict ((pg, False) # trace) s ctx = Persist ops evict trace s ctx"
    by (auto split: prod.splits)
  have c5: "Persist ops evict trace s ctx \<noteq> Some (Inl e)" by (rule Persist_no_error)
  have c6: "(\<forall>p\<in>set fails. NeedsFlush ops p) \<and> NeedsFlush ops pg \<longrightarrow>
      (\<exists>pg' s' ctx'.
         Persist ops evict (map (\<lambda>p. (p, False)) fails @ (pg, True) # trace) s ctx =
           Some (Inr (pg', s', ctx')) \<and>
         lss_blocks (lss s') = lss_blocks (lss s) @ map (discarded ops) fails @
           [\<lparr>blk_buf = be16 (lssBlockType_code (pgFlushLSSType pg n)) @ bs, blk_finalized = True\<rparr>])"
  proof (intro impI)
    assume a: "(\<forall>p\<in>set fails. NeedsFlush ops p) \<and> NeedsFlush ops pg"
    let ?s1 = "s\<lparr>lss := (lss s)\<lparr>lss_blocks := lss_blocks (lss s) @ map (discarded ops) fails\<rparr>\<rparr>"
    have "Persist ops evict (map (\<lambda>p. (p, False)) fails @ (pg, True) # trace) s ctx =
          Persist ops evict ((pg, True) # trace) ?s1 ctx"
      using a by (intro Persist_retries) simp
    then show "\<exists>pg' s' ctx'.
         Persist ops evict (map (\<lambda>p. (p, False)) fails @ (pg, True) # trace) s ctx =
           Some (Inr (pg', s', ctx')) \<and>
         lss_blocks (lss s') = lss_blocks (lss s) @ map (discarded ops) fails @
           [\<lparr>blk_buf = be16 (lssBlockType_code (pgFlushLSSType pg n)) @ bs, blk_finalized = True\<rparr>]"
      using Persist_flush_step(2) [OF _ m, of evict trace ?s1 ctx] a by simp
  qed
  show ?thesis using c1 c2 c3 c4 c5 c6 by (simp add: m)
qed

theorem Persist_retries_after_failed_CAS_witness:
  "Persist ops0 False [(([1, 2], None), False), (([1, 2, 3], None), True)] plasma0 \<lparr>FlushDataSz = 0\<rparr> =
     Some (Inr (([1, 2, 3], Some 4),
                plasma0\<lparr>lss := \<lparr>lss_blocks = [\<lparr>blk_buf = [0, 7, 1, 2], blk_finalized = True\<rparr>,
                                              \<lparr>blk_buf = [0, 1, 1, 2, 3], blk_finalized = True\<rparr>],
                                lss_synced = 0\<rparr>\<rparr>,
                \<lparr>FlushDataSz = 3\<rparr>))"
proof -
  have n: "NeedsFlush ops0 ([1, 2], None)" by (simp add: ops0_def)
  have d: "discarded ops0 ([1, 2], None) = \<lparr>blk_buf = [0, 7, 1, 2], blk_finalized = True\<rparr>"
    by (simp add: discarded_def ops0_def be16_def)
  have "Persist ops0 False [(([1, 2], None), False), (([1, 2, 3], None), True)] plasma0 \<lparr>FlushDataSz = 0\<rparr> =
        Persist ops0 False [(([1, 2, 3], None), True)]
          (plasma0\<lparr>lss := (lss plasma0)\<lparr>lss_blocks := lss_blocks (lss plasma0) @
               [\<lparr>blk_buf = [0, 7, 1, 2], blk_finalized = True\<rparr>]\<rparr>\<rparr>) \<lparr>FlushDataSz = 0\<rparr>"
    using Persist_retries_after_failed_CAS
      [of ops0 "([1, 2], None)" False "[(([1, 2, 3], None), True)]" plasma0 "\<lparr>FlushDataSz = 0\<rparr>" IndexOutOfRange "[]"]
      n d by simp
  also have "\<dots> = Some (Inr (([1, 2, 3], Some 4),
                plasma0\<lparr>lss := \<lparr>lss_blocks = [\<lparr>blk_buf = [0, 7, 1, 2], blk_finalized = True\<rparr>,
                                              \<lparr>blk_buf = [0, 1, 1, 2, 3], blk_finalized = True\<rparr>],
                                lss_synced = 0\<rparr>\<rparr>,
                \<lparr>FlushDataSz = 3\<rparr>))"
    by code_simp
  finally show ?thesis .
qed

end
